theory Spec2Isabelle
  imports Complex_Main "HOL-Library.Log_Nat" "HOL-Library.Sublist" "HOL-Library.List_Lexorder" "HOL-Library.Char_ord"
begin

section \<open>Python values\<close>

text \<open>
  The artifacts of the knowledge-ingestion engine are Python dataclass instances that are
  written to disk as JSON documents. The values that occur in them are modelled by one
  datatype. A \<open>dict\<close> is an association list in insertion order (Python dictionaries keep
  it, and so does \<open>json.dump\<close>); its keys are strings, as the annotation
  \<open>Dict[str, Any]\<close> of the source says. A Python \<open>float\<close> is an IEEE double; it is
  modelled by the rational number it denotes (infinities and NaN are left out), and the
  arithmetic on it rounds, see the section on floats. A string is a list of characters
  with code points below 256.

  \<open>Any\<close> admits values that JSON does not have. Two kinds stand for them: a tuple,
  which \<open>json.dump\<close> writes as an array, and \<open>PObject\<close>, an instance of a class
  without special methods (named by a number), which \<open>json.dump\<close> rejects. Dictionaries
  whose keys are not strings are left out.
\<close>

datatype pyval =
    PNone
  | PBool bool
  | PInt int
  | PFloat rat
  | PStr string
  | PList "pyval list"
  | PTuple "pyval list"
  | PDict "(string \<times> pyval) list"
  | PObject nat

type_synonym pydict = "(string \<times> pyval) list"

text \<open>The text of a JSON file, as the value it denotes.\<close>

datatype json =
    JNull
  | JBool bool
  | JInt int
  | JFloat rat
  | JStr string
  | JArr "json list"
  | JObj "(string \<times> json) list"

text \<open>
  \<open>json.dump\<close>: \<open>None\<close> when the encoder raises \<open>TypeError\<close> (\<open>Object of type ... is
  not JSON serializable\<close>). Lists and tuples both become arrays.
\<close>

primrec json_dump :: "pyval \<Rightarrow> json option" where
  "json_dump PNone = Some JNull"
| "json_dump (PBool b) = Some (JBool b)"
| "json_dump (PInt n) = Some (JInt n)"
| "json_dump (PFloat x) = Some (JFloat x)"
| "json_dump (PStr s) = Some (JStr s)"
| "json_dump (PList vs) = map_option JArr (those (map json_dump vs))"
| "json_dump (PTuple vs) = map_option JArr (those (map json_dump vs))"
| "json_dump (PDict d) =
     map_option JObj
       (those (map (\<lambda>kv. map_option (Pair (fst kv)) (snd kv)) (map (map_prod id json_dump) d)))"
| "json_dump (PObject n) = None"

text \<open>\<open>json.load\<close>: an array becomes a list, an object a dictionary.\<close>

primrec json_load :: "json \<Rightarrow> pyval" where
  "json_load JNull = PNone"
| "json_load (JBool b) = PBool b"
| "json_load (JInt n) = PInt n"
| "json_load (JFloat x) = PFloat x"
| "json_load (JStr s) = PStr s"
| "json_load (JArr js) = PList (map json_load js)"
| "json_load (JObj d) = PDict (map (map_prod id json_load) d)"

text \<open>The values that JSON has: neither a tuple nor an object of another class.\<close>

primrec json_native :: "pyval \<Rightarrow> bool" where
  "json_native PNone = True"
| "json_native (PBool b) = True"
| "json_native (PInt n) = True"
| "json_native (PFloat x) = True"
| "json_native (PStr s) = True"
| "json_native (PList vs) = list_all id (map json_native vs)"
| "json_native (PTuple vs) = False"
| "json_native (PDict d) = list_all snd (map (map_prod id json_native) d)"
| "json_native (PObject n) = False"

text \<open>
  The exceptions of the source, as values. \<open>IllTyped\<close> marks a stored document
  holding a value that no artifact written by \<open>to_dict\<close> has: Python would build an
  object with a field of another type there. \<open>Unmodelled\<close> marks a call whose outcome
  depends on what the model does not hold (a file outside the artifacts directory, a
  limit of the file system, a pattern that versions of \<open>pathlib\<close> read differently); no
  statement below is about such a call.
\<close>

datatype py_error =
    FileExistsError string
  | FileNotFoundError string
  | NotADirectoryError string
  | JSONDecodeError
  | KeyError string
  | TypeError
  | AttributeError
  | IllTyped string
  | Unmodelled string

section \<open>Strings\<close>

definition nl :: char where
  "nl = CHR 0x0A"

text \<open>
  \<open>str.isspace\<close>, which is also what \<open>\s\<close> matches in a pattern on \<open>str\<close>; the
  letters of the class \<open>[A-Za-z]\<close>; the digits that \<open>\d\<close> matches.
\<close>

definition is_space :: "char \<Rightarrow> bool" where
  "is_space c =
     (let n = (of_char c :: nat)
      in (9 \<le> n \<and> n \<le> 13) \<or> (28 \<le> n \<and> n \<le> 32) \<or> n = 133 \<or> n = 160)"

definition is_alpha :: "char \<Rightarrow> bool" where
  "is_alpha c =
     (let n = (of_char c :: nat) in (65 \<le> n \<and> n \<le> 90) \<or> (97 \<le> n \<and> n \<le> 122))"

definition is_digit :: "char \<Rightarrow> bool" where
  "is_digit c = (let n = (of_char c :: nat) in 48 \<le> n \<and> n \<le> 57)"

definition lower_char :: "char \<Rightarrow> char" where
  "lower_char c =
     (let n = (of_char c :: nat)
      in if (65 \<le> n \<and> n \<le> 90) \<or> (192 \<le> n \<and> n \<le> 214) \<or> (216 \<le> n \<and> n \<le> 222)
         then char_of (n + 32) else c)"

definition lower :: "string \<Rightarrow> string" where
  "lower s = map lower_char s"

definition strip_by :: "(char \<Rightarrow> bool) \<Rightarrow> string \<Rightarrow> string" where
  "strip_by p s = rev (dropWhile p (rev (dropWhile p s)))"

definition strip :: "string \<Rightarrow> string" where
  "strip s = strip_by is_space s"

fun split_by :: "(char \<Rightarrow> bool) \<Rightarrow> string \<Rightarrow> string list" where
  "split_by p [] = [[]]"
| "split_by p (c # cs) =
     (if p c then [] # split_by p cs
      else (case split_by p cs of [] \<Rightarrow> [[c]] | l # ls \<Rightarrow> (c # l) # ls))"

text \<open>\<open>s.split(sep)\<close> for a separator of one character, and \<open>s.split()\<close>.\<close>

definition split :: "char \<Rightarrow> string \<Rightarrow> string list" where
  "split sep s = split_by (\<lambda>c. c = sep) s"

definition split_whitespace :: "string \<Rightarrow> string list" where
  "split_whitespace s = filter (\<lambda>w. w \<noteq> []) (split_by is_space s)"

fun join :: "string \<Rightarrow> string list \<Rightarrow> string" where
  "join sep [] = []"
| "join sep [l] = l"
| "join sep (l # ls) = l @ sep @ join sep ls"

text \<open>\<open>sub in s\<close> on strings.\<close>

definition contains :: "string \<Rightarrow> string \<Rightarrow> bool" where
  "contains sub s = list_ex (prefix sub) (suffixes s)"

definition digit_char :: "nat \<Rightarrow> char" where
  "digit_char n = char_of (48 + n mod 10)"

fun str_nat :: "nat \<Rightarrow> string" where
  "str_nat n = (if n < 10 then [digit_char n] else str_nat (n div 10) @ [digit_char n])"

declare str_nat.simps [simp del]

text \<open>\<open>str(i)\<close>, which is also how an f-string formats an integer.\<close>

definition str_int :: "int \<Rightarrow> string" where
  "str_int i = (if i < 0 then CHR ''-'' # str_nat (nat (- i)) else str_nat (nat i))"

section \<open>The artifact model (models/artifact.py)\<close>

record artifact =
  artifact_id :: string
  atype :: string
  content :: pydict
  derived_from :: "string list"
  referenced_context :: "string list"
  confidence :: rat
  stage_metadata :: pydict
  status :: string
  version :: int
  created_at :: string

text \<open>\<open>Artifact.to_dict\<close> is \<open>asdict(self)\<close>: the fields in declaration order.\<close>

definition to_dict :: "artifact \<Rightarrow> pyval" where
  "to_dict a = PDict
     [(''artifact_id'', PStr (artifact_id a)),
      (''type'', PStr (atype a)),
      (''content'', PDict (content a)),
      (''derived_from'', PList (map PStr (derived_from a))),
      (''referenced_context'', PList (map PStr (referenced_context a))),
      (''confidence'', PFloat (confidence a)),
      (''stage_metadata'', PDict (stage_metadata a)),
      (''status'', PStr (status a)),
      (''version'', PInt (version a)),
      (''created_at'', PStr (created_at a))]"

definition field_names :: "string list" where
  "field_names = [''artifact_id'', ''type'', ''content'', ''derived_from'',
     ''referenced_context'', ''confidence'', ''stage_metadata'', ''status'', ''version'',
     ''created_at'']"

text \<open>Typed readers for the fields of a document.\<close>

fun as_str :: "string \<Rightarrow> pyval \<Rightarrow> py_error + string" where
  "as_str k (PStr s) = Inr s"
| "as_str k v = Inl (IllTyped k)"

fun as_dict :: "string \<Rightarrow> pyval \<Rightarrow> py_error + pydict" where
  "as_dict k (PDict d) = Inr d"
| "as_dict k v = Inl (IllTyped k)"

fun as_float :: "string \<Rightarrow> pyval \<Rightarrow> py_error + rat" where
  "as_float k (PFloat x) = Inr x"
| "as_float k v = Inl (IllTyped k)"

fun as_int :: "string \<Rightarrow> pyval \<Rightarrow> py_error + int" where
  "as_int k (PInt n) = Inr n"
| "as_int k v = Inl (IllTyped k)"

fun as_strs :: "string \<Rightarrow> pyval list \<Rightarrow> py_error + string list" where
  "as_strs k [] = Inr []"
| "as_strs k (PStr s # vs) =
     (case as_strs k vs of Inl e \<Rightarrow> Inl e | Inr ss \<Rightarrow> Inr (s # ss))"
| "as_strs k (v # vs) = Inl (IllTyped k)"

fun as_str_list :: "string \<Rightarrow> pyval \<Rightarrow> py_error + string list" where
  "as_str_list k (PList vs) = as_strs k vs"
| "as_str_list k v = Inl (IllTyped k)"

text \<open>
  A keyword argument of the constructor: a required one raises \<open>TypeError\<close> when the
  document lacks it, an optional one takes its default.
\<close>

definition required :: "pydict \<Rightarrow> string \<Rightarrow> (string \<Rightarrow> pyval \<Rightarrow> py_error + 'a) \<Rightarrow> py_error + 'a" where
  "required d k rd = (case map_of d k of None \<Rightarrow> Inl TypeError | Some v \<Rightarrow> rd k v)"

definition optional :: "pydict \<Rightarrow> string \<Rightarrow> (string \<Rightarrow> pyval \<Rightarrow> py_error + 'a) \<Rightarrow> 'a \<Rightarrow> py_error + 'a" where
  "optional d k rd dflt = (case map_of d k of None \<Rightarrow> Inr dflt | Some v \<Rightarrow> rd k v)"

definition bind :: "py_error + 'a \<Rightarrow> ('a \<Rightarrow> py_error + 'b) \<Rightarrow> py_error + 'b" where
  "bind m f = (case m of Inl e \<Rightarrow> Inl e | Inr x \<Rightarrow> f x)"

text \<open>
  \<open>Artifact.from_dict\<close> is \<open>cls(**data)\<close>: a value that is not a dictionary, a key
  that is not a field and a missing required field raise \<open>TypeError\<close>; the default of
  \<open>created_at\<close> is the current time \<open>now\<close>.
\<close>

fun from_dict :: "string \<Rightarrow> pyval \<Rightarrow> py_error + artifact" where
  "from_dict now (PDict d) =
     (if \<not> list_all (\<lambda>k. k \<in> set field_names) (map fst d) then Inl TypeError
      else
        bind (required d ''artifact_id'' as_str) (\<lambda>i.
        bind (required d ''type'' as_str) (\<lambda>t.
        bind (required d ''content'' as_dict) (\<lambda>c.
        bind (optional d ''derived_from'' as_str_list []) (\<lambda>df.
        bind (optional d ''referenced_context'' as_str_list []) (\<lambda>rc.
        bind (optional d ''confidence'' as_float 0) (\<lambda>cf.
        bind (optional d ''stage_metadata'' as_dict []) (\<lambda>sm.
        bind (optional d ''status'' as_str ''draft'') (\<lambda>st.
        bind (optional d ''version'' as_int 1) (\<lambda>ve.
        bind (optional d ''created_at'' as_str now) (\<lambda>ca.
          Inr \<lparr>artifact_id = i, atype = t, content = c, derived_from = df,
               referenced_context = rc, confidence = cf, stage_metadata = sm,
               status = st, version = ve, created_at = ca\<rparr>)))))))))))"
| "from_dict now v = Inl TypeError"

section \<open>The artifact store (store/artifact_store.py)\<close>

text \<open>
  The store is the directory \<open>artifacts\<close> with one file \<open>id.json\<close> for each artifact.
  The model is a POSIX file system in which that directory holds the files that the
  store wrote and nothing else, in particular no subdirectory. The directory is the list
  of its files in the order of creation, each with its name without the ending
  \<open>.json\<close> and its content; a file whose writing was cut short by an exception holds
  the beginning of a document, which is no JSON text.
\<close>

datatype file_text = Json json | Truncated

type_synonym store = "(string \<times> file_text) list"

definition file_name :: "string \<Rightarrow> string" where
  "file_name k = k @ ''.json''"

text \<open>
  The id is part of a path: \<open>self.artifacts_dir / f"{artifact_id}.json"\<close>. The path
  class drops the empty components and the components \<open>.\<close>. What remains is either one
  file name of the directory, or a path through a subdirectory, which does not exist, or
  a path that leaves the directory (it is absolute or starts with \<open>..\<close>). A path with a
  NUL character or with more than 255 bytes (code points from 128 take two bytes in
  UTF-8), the longest file name of Linux file systems, is not followed further.
\<close>

datatype location = InStore string | NoDirectory string | Elsewhere

definition path_parts :: "string \<Rightarrow> string list" where
  "path_parts p = filter (\<lambda>c. c \<noteq> [] \<and> c \<noteq> ''.'') (split (CHR ''/'') p)"

definition byte_length :: "string \<Rightarrow> nat" where
  "byte_length s = length s + length (filter (\<lambda>c. 128 \<le> (of_char c :: nat)) s)"

definition locate :: "string \<Rightarrow> location" where
  "locate i =
     (let name = file_name i; parts = path_parts name
      in if CHR 0x00 \<in> set name \<or> 255 < byte_length name \<or> take 1 name = ''/''
            \<or> take 1 parts = [''..''] then Elsewhere
         else (case parts of
                 [f] \<Rightarrow> InStore (take (length f - 5) f)
               | d # ds \<Rightarrow> NoDirectory d
               | [] \<Rightarrow> Elsewhere))"

text \<open>
  \<open>artifact_path.exists()\<close>, which is \<open>False\<close> when a directory of the path is
  missing. For a path that leaves the directory the model holds no file;
  \<open>save_artifact\<close> and \<open>load_artifact\<close> do not use the answer there.
\<close>

definition exists :: "store \<Rightarrow> string \<Rightarrow> bool" where
  "exists s i = (case locate i of InStore k \<Rightarrow> k \<in> set (map fst s) | _ \<Rightarrow> False)"

text \<open>
  \<open>save_artifact\<close> returns the outcome with the store after the call.
  \<open>FileExistsError\<close> is raised before the file is opened. \<open>open(artifact_path, 'w')\<close>
  raises \<open>FileNotFoundError\<close> when the path goes through a directory that does not
  exist, and \<open>NotADirectoryError\<close> when it goes through a file. Then the file exists,
  and \<open>json.dump(artifact_dict, f, indent=2)\<close> writes the document piece by piece: when
  it meets a value that it cannot encode it raises \<open>TypeError\<close>, and the pieces
  written so far stay in the file.
\<close>

definition save_artifact :: "store \<Rightarrow> artifact \<Rightarrow> (py_error + unit) \<times> store" where
  "save_artifact s a =
     (if exists s (artifact_id a) then (Inl (FileExistsError (artifact_id a)), s)
      else
        (case locate (artifact_id a) of
           Elsewhere \<Rightarrow> (Inl (Unmodelled (artifact_id a)), s)
         | NoDirectory d \<Rightarrow>
             (if d \<in> set (map (file_name \<circ> fst) s)
              then (Inl (NotADirectoryError (file_name (artifact_id a))), s)
              else (Inl (FileNotFoundError (file_name (artifact_id a))), s))
         | InStore k \<Rightarrow>
             (case json_dump (to_dict a) of
                None \<Rightarrow> (Inl TypeError, s @ [(k, Truncated)])
              | Some j \<Rightarrow> (Inr (), s @ [(k, Json j)]))))"

text \<open>
  \<open>load_artifact\<close> raises its own \<open>FileNotFoundError\<close> when the path does not
  exist; \<open>json.load\<close> raises \<open>JSONDecodeError\<close> on a file that holds no JSON text.
\<close>

definition load_artifact :: "string \<Rightarrow> store \<Rightarrow> string \<Rightarrow> py_error + artifact" where
  "load_artifact now s i =
     (case locate i of
        Elsewhere \<Rightarrow> Inl (Unmodelled i)
      | NoDirectory d \<Rightarrow> Inl (FileNotFoundError i)
      | InStore k \<Rightarrow>
          (case map_of s k of
             None \<Rightarrow> Inl (FileNotFoundError i)
           | Some Truncated \<Rightarrow> Inl JSONDecodeError
           | Some (Json j) \<Rightarrow> from_dict now (json_load j)))"

text \<open>
  The pattern of \<open>self.artifacts_dir.glob(f"{base_name}*.json")\<close>, for one path
  component, as \<open>fnmatch\<close> reads it: \<open>*\<close> is any sequence of characters, \<open>?\<close> any
  character, \<open>[...]\<close> a class of characters, negated when it starts with \<open>!\<close>; a
  \<open>]\<close> right behind the opening bracket (or behind the \<open>!\<close>) belongs to the class,
  and a \<open>[\<close> that no \<open>]\<close> closes is the character itself. In a class \<open>lo-hi\<close> is a
  range of code points; a character on its own is the range from itself to itself.
\<close>

datatype glob_item = Star | AnyChar | Lit char | Class bool "(char \<times> char) list"

fun class_ranges :: "string \<Rightarrow> (char \<times> char) list" where
  "class_ranges [] = []"
| "class_ranges [c] = [(c, c)]"
| "class_ranges [c, d] = [(c, c), (d, d)]"
| "class_ranges (c # d # hi # rest) =
     (if d = CHR ''-'' then (c, hi) # class_ranges rest
      else (c, c) # class_ranges (d # hi # rest))"

text \<open>
  The class that starts behind an opening bracket: whether it is negated, its text, and
  the pattern behind the closing bracket; \<open>None\<close> when no bracket closes it.
\<close>

definition class_end :: "string \<Rightarrow> (bool \<times> string \<times> string) option" where
  "class_end p =
     (let negated = (take 1 p = ''!'');
          p1 = (if negated then drop 1 p else p);
          first = (if take 1 p1 = '']'' then '']'' else []);
          p2 = drop (length first) p1;
          body = takeWhile (\<lambda>c. c \<noteq> CHR '']'') p2;
          rest = dropWhile (\<lambda>c. c \<noteq> CHR '']'') p2
      in if rest = [] then None else Some (negated, first @ body, drop 1 rest))"

function glob_parse :: "string \<Rightarrow> glob_item list" where
  "glob_parse [] = []"
| "glob_parse (c # p) =
     (if c = CHR ''*'' then Star # glob_parse p
      else if c = CHR ''?'' then AnyChar # glob_parse p
      else if c = CHR ''[''
      then (case class_end p of
              None \<Rightarrow> Lit c # glob_parse p
            | Some (negated, stuff, rest) \<Rightarrow> Class negated (class_ranges stuff) # glob_parse rest)
      else Lit c # glob_parse p)"
  by pat_completeness auto
termination
proof (relation "measure length")
  show "wf (measure length)" by simp
next
  fix c :: char and p x2 x y xa ya
  assume "class_end p = Some x2" and "(x, y) = x2" and "(xa, ya) = y"
  then have "ya = drop 1 (dropWhile (\<lambda>c. c \<noteq> CHR '']'')
       (drop (length (if take 1 (if take 1 p = ''!'' then drop 1 p else p) = '']'' then '']'' else []))
          (if take 1 p = ''!'' then drop 1 p else p)))"
    by (auto simp: class_end_def Let_def split: if_splits)
  moreover have "length (dropWhile (\<lambda>c. c \<noteq> CHR '']'') (drop n p)) - Suc 0 \<le> length p" for n
    by (rule order_trans[OF diff_le_self], rule order_trans[OF length_dropWhile_le]) simp
  from this[of 0] this[of "Suc 0"] this[of "Suc (Suc 0)"]
  have "length (dropWhile (\<lambda>c. c \<noteq> CHR '']'') p) - Suc 0 \<le> length p"
    "length (dropWhile (\<lambda>c. c \<noteq> CHR '']'') (drop (Suc 0) p)) - Suc 0 \<le> length p"
    "length (dropWhile (\<lambda>c. c \<noteq> CHR '']'') (drop (Suc (Suc 0)) p)) - Suc 0 \<le> length p"
    by simp_all
  ultimately have "length ya \<le> length p"
    by (auto split: if_splits)
  then show "(ya, c # p) \<in> measure length" by simp
qed auto

fun glob_match :: "glob_item list \<Rightarrow> string \<Rightarrow> bool" where
  "glob_match [] s = (s = [])"
| "glob_match (Star # items) [] = glob_match items []"
| "glob_match (Star # items) (c # cs) = (glob_match items (c # cs) \<or> glob_match (Star # items) cs)"
| "glob_match (item # items) [] = False"
| "glob_match (AnyChar # items) (c # cs) = glob_match items cs"
| "glob_match (Lit x # items) (c # cs) = (x = c \<and> glob_match items cs)"
| "glob_match (Class negated ranges # items) (c # cs) =
     ((negated \<noteq> list_ex (\<lambda>(lo, hi). lo \<le> c \<and> c \<le> hi) ranges) \<and> glob_match items cs)"

text \<open>
  A range whose upper end is below its lower end is dropped by some versions of
  \<open>fnmatch\<close> and is an error of the pattern in others.
\<close>

fun reversed_range :: "glob_item \<Rightarrow> bool" where
  "reversed_range (Class negated ranges) = list_ex (\<lambda>(lo, hi). hi < lo) ranges"
| "reversed_range item = False"

text \<open>\<open>Path.stem\<close> of a file name: the name without its last suffix, if it has one.\<close>

definition stem :: "string \<Rightarrow> string" where
  "stem name =
     (let suffix = rev (takeWhile (\<lambda>c. c \<noteq> CHR ''.'') (rev name));
          i = length name - length suffix - 1
      in if CHR ''.'' \<in> set name \<and> 0 < i \<and> suffix \<noteq> [] then take i name else name)"

text \<open>
  \<open>list_versions\<close> globs \<open>base_name*.json\<close>, takes the stems and sorts them with
  \<open>sorted\<close>, which compares strings code point by code point. A pattern with \<open>/\<close> has
  several components and looks into other directories, and \<open>**\<close> inside a component is
  an error in some versions of \<open>pathlib\<close> and a wildcard in others.
\<close>

definition list_versions :: "store \<Rightarrow> string \<Rightarrow> py_error + string list" where
  "list_versions s base_name =
     (let pattern = base_name @ ''*.json''
      in if CHR ''/'' \<in> set pattern \<or> contains ''**'' pattern
            \<or> list_ex reversed_range (glob_parse pattern)
         then Inl (Unmodelled pattern)
         else Inr (sort (map stem (filter (glob_match (glob_parse pattern))
                                     (map (file_name \<circ> fst) s)))))"

section \<open>Floats\<close>

text \<open>
  A Python \<open>float\<close> is an IEEE 754 double, and every arithmetic operation on floats
  returns the double nearest to the exact result, ties going to the even mantissa.
  \<open>fl\<close> is that rounding: 53 bits of mantissa, exponents from \<open>-1022\<close> (below it the
  subnormal numbers keep the spacing \<open>2 powi (-1074)\<close>). Overflow to infinity is left
  out: the confidences and their adjustments are far from \<open>2 powi 1024\<close>. A decimal
  literal of the source, such as \<open>0.95\<close>, is the double \<open>fl (95 / 100)\<close>.
\<close>

definition round_half_even :: "rat \<Rightarrow> int" where
  "round_half_even x =
     (let f = \<lfloor>x\<rfloor>; d = x - of_int f in
      if d < 1 / 2 then f else if 1 / 2 < d then f + 1 else if even f then f else f + 1)"

text \<open>\<open>ilog2 x\<close> is the exponent \<open>e\<close> with \<open>2 powi e \<le> x < 2 powi (e + 1)\<close>, for \<open>0 < x\<close>.\<close>

definition ilog2 :: "rat \<Rightarrow> int" where
  "ilog2 x =
     (let n = bitlen (fst (quotient_of x)) - bitlen (snd (quotient_of x))
      in if 2 powi n \<le> x then n else n - 1)"

definition fl :: "rat \<Rightarrow> rat" where
  "fl x =
     (if x = 0 then 0
      else let q = max (ilog2 \<bar>x\<bar>) (- 1022) - 52
           in of_int (round_half_even (x / 2 powi q)) * 2 powi q)"

definition fadd :: "rat \<Rightarrow> rat \<Rightarrow> rat" where
  "fadd x y = fl (x + y)"

definition fsub :: "rat \<Rightarrow> rat \<Rightarrow> rat" where
  "fsub x y = fl (x - y)"

definition fmul :: "rat \<Rightarrow> rat \<Rightarrow> rat" where
  "fmul x y = fl (x * y)"

text \<open>\<open>int * float\<close> converts the integer to the nearest double first.\<close>

definition float_of_int :: "int \<Rightarrow> rat" where
  "float_of_int n = fl (of_int n)"

section \<open>The normalize stage's text functions (stages/normalize.py)\<close>

text \<open>
  \<open>re.sub(r'\n\s*\n+', '\n\n', text)\<close>. A match starts at a newline; the greedy
  \<open>\s*\<close> runs over the whitespace \<open>w\<close> that follows and gives characters back until
  \<open>\n+\<close> finds a newline, so the match ends at the last newline of \<open>w\<close>. The scan goes
  on behind the match.
\<close>

function collapse_blank_lines :: "string \<Rightarrow> string" where
  "collapse_blank_lines [] = []"
| "collapse_blank_lines (c # cs) =
     (let w = takeWhile is_space cs in
      if c = nl \<and> nl \<in> set w
      then [nl, nl] @ collapse_blank_lines
             (drop (length (dropWhile (\<lambda>x. x \<noteq> nl) (rev w))) cs)
      else c # collapse_blank_lines cs)"
  by pat_completeness auto
termination
  by (relation "measure length") auto

definition clean_text :: "string \<Rightarrow> string" where
  "clean_text text = collapse_blank_lines (strip text)"

text \<open>
  \<open>re.match(r'^([A-Za-z][A-Za-z\s]+?):\s*(.*)$', line)\<close> on a line without newline.
  The class of the name excludes the colon, so the lazy \<open>+?\<close> can only stop at the first
  character outside the class, which must be the colon. The result is
  \<open>(match.group(1).strip(), match.group(2))\<close>.
\<close>

definition match_speaker :: "string \<Rightarrow> (string \<times> string) option" where
  "match_speaker line =
     (case line of
        [] \<Rightarrow> None
      | c # cs \<Rightarrow>
          (let nm = takeWhile (\<lambda>x. is_alpha x \<or> is_space x) cs;
               rest = dropWhile (\<lambda>x. is_alpha x \<or> is_space x) cs
           in if is_alpha c \<and> nm \<noteq> [] \<and> take 1 rest = '':''
              then Some (strip (c # nm), dropWhile is_space (drop 1 rest))
              else None))"

text \<open>The loop of \<open>_standardize_speakers\<close> over the lines, with its two variables.\<close>

fun standardize_lines :: "(string \<times> string) list \<Rightarrow> nat \<Rightarrow> string list \<Rightarrow> string list" where
  "standardize_lines speaker_map speaker_count [] = []"
| "standardize_lines speaker_map speaker_count (line # lines) =
     (case match_speaker line of
        None \<Rightarrow> line # standardize_lines speaker_map speaker_count lines
      | Some (speaker_name, dialogue) \<Rightarrow>
          (case map_of speaker_map speaker_name of
             None \<Rightarrow>
               (let label = ''Speaker '' @ str_nat (speaker_count + 1)
                in (label @ '': '' @ dialogue)
                   # standardize_lines ((speaker_name, label) # speaker_map)
                       (speaker_count + 1) lines)
           | Some label \<Rightarrow>
               (label @ '': '' @ dialogue)
               # standardize_lines speaker_map speaker_count lines))"

definition standardize_speakers :: "string \<Rightarrow> string" where
  "standardize_speakers text = join [nl] (standardize_lines [] 0 (split nl text))"

text \<open>The text that \<open>normalize\<close> stores: cleaned, then standardized.\<close>

definition normalize_text :: "string \<Rightarrow> string" where
  "normalize_text raw_text = standardize_speakers (clean_text raw_text)"

section \<open>Telemetry and the environment of a stage\<close>

record telemetry_event =
  run_id :: string
  stage :: string
  input_artifact_id :: string
  output_artifact_id :: "string option"
  latency_ms :: int
  cost_usd :: rat
  timestamp :: string
  replayable :: bool
  replay_of :: "string option"

text \<open>
  What a stage reads from outside: the clock (the day \<open>%Y%m%d\<close> of an artifact id, the
  day \<open>%Y-%m-%d\<close> that names the telemetry log, the ISO timestamp), the latency it
  measures, and the documents of the context store in the order the directory lists
  them, each with its \<open>context_id\<close> and its \<open>content\<close>.
\<close>

record env =
  date_str :: string
  log_date :: string
  now :: string
  measured_latency :: int
  context_files :: "(string \<times> string) list"

text \<open>The two stores: the artifact files and the telemetry log, an entry for each line.\<close>

record state =
  artifacts :: store
  telemetry :: "(string \<times> telemetry_event) list"

definition append_event :: "env \<Rightarrow> state \<Rightarrow> telemetry_event \<Rightarrow> state" where
  "append_event e st ev = st\<lparr>telemetry := telemetry st @ [(log_date e, ev)]\<rparr>"

definition make_event :: "env \<Rightarrow> string \<Rightarrow> string \<Rightarrow> string \<Rightarrow> string \<Rightarrow> telemetry_event" where
  "make_event e rid stage_name input_id output_id =
     \<lparr>run_id = rid, stage = stage_name, input_artifact_id = input_id,
      output_artifact_id = Some output_id, latency_ms = measured_latency e, cost_usd = 0,
      timestamp = now e, replayable = True, replay_of = None\<rparr>"

text \<open>
  The end of every stage: \<open>store.save_artifact(artifact)\<close>, which may raise, then
  \<open>telemetry.append_event(event)\<close>, then \<open>return artifact\<close>.
\<close>

definition persist :: "env \<Rightarrow> state \<Rightarrow> string \<Rightarrow> string \<Rightarrow> string \<Rightarrow> artifact \<Rightarrow> (py_error + artifact) \<times> state" where
  "persist e st rid stage_name input_id a =
     (case save_artifact (artifacts st) a of
        (Inl err, s') \<Rightarrow> (Inl err, st\<lparr>artifacts := s'\<rparr>)
      | (Inr u, s') \<Rightarrow>
          (Inr a, append_event e (st\<lparr>artifacts := s'\<rparr>)
                    (make_event e rid stage_name input_id (artifact_id a))))"

text \<open>\<open>if artifact_id_override: ... else: f"{kind}_{date_str}_{run_id}_v{version}"\<close>.\<close>

definition choose_id :: "env \<Rightarrow> string \<Rightarrow> string \<Rightarrow> int \<Rightarrow> string option \<Rightarrow> string" where
  "choose_id e kind rid ver artifact_id_override =
     (case artifact_id_override of
        Some i \<Rightarrow> if i \<noteq> [] then i else kind @ ''_'' @ date_str e @ ''_'' @ rid @ ''_v'' @ str_int ver
      | None \<Rightarrow> kind @ ''_'' @ date_str e @ ''_'' @ rid @ ''_v'' @ str_int ver)"

definition metadata :: "env \<Rightarrow> string \<Rightarrow> string list \<Rightarrow> pydict" where
  "metadata e model retrieval_ids =
     [(''model'', PStr model), (''tokens'', PInt 0), (''cost_usd'', PFloat 0),
      (''latency_ms'', PInt (measured_latency e)),
      (''retrieval_ids'', PList (map PStr retrieval_ids))]"

text \<open>\<open>d.get(k, default)\<close>, truth value of a Python value, and \<open>item in container\<close>.\<close>

definition dict_get :: "pydict \<Rightarrow> string \<Rightarrow> pyval \<Rightarrow> pyval" where
  "dict_get d k dflt = (case map_of d k of None \<Rightarrow> dflt | Some v \<Rightarrow> v)"

fun truthy :: "pyval \<Rightarrow> bool" where
  "truthy PNone = False"
| "truthy (PBool b) = b"
| "truthy (PInt n) = (n \<noteq> 0)"
| "truthy (PFloat x) = (x \<noteq> 0)"
| "truthy (PStr s) = (s \<noteq> [])"
| "truthy (PList vs) = (vs \<noteq> [])"
| "truthy (PTuple vs) = (vs \<noteq> [])"
| "truthy (PDict d) = (d \<noteq> [])"
| "truthy (PObject n) = True"

fun str_in :: "string \<Rightarrow> pyval \<Rightarrow> py_error + bool" where
  "str_in x (PList vs) = Inr (PStr x \<in> set vs)"
| "str_in x (PTuple vs) = Inr (PStr x \<in> set vs)"
| "str_in x (PStr s) = Inr (contains x s)"
| "str_in x (PDict d) = Inr (x \<in> set (map fst d))"
| "str_in x v = Inl TypeError"

section \<open>The normalize stage (stages/normalize.py)\<close>

definition normalize :: "env \<Rightarrow> state \<Rightarrow> string \<Rightarrow> string \<Rightarrow> int \<Rightarrow> string list option \<Rightarrow> string option \<Rightarrow> (py_error + artifact) \<times> state" where
  "normalize e st raw_text rid ver derived_from_override artifact_id_override =
     persist e st rid ''normalize'' ''raw_input''
       \<lparr>artifact_id = choose_id e ''transcript'' rid ver artifact_id_override,
        atype = ''transcript'',
        content = [(''text'', PStr (normalize_text raw_text))],
        derived_from = (case derived_from_override of Some ps \<Rightarrow> ps | None \<Rightarrow> []),
        referenced_context = [],
        confidence = fl (95 / 100),
        stage_metadata = metadata e ''deterministic'' [],
        status = ''draft'',
        version = ver,
        created_at = now e\<rparr>"

section \<open>The extract stage (stages/extract.py)\<close>

text \<open>\<open>re.sub(r'^Speaker \d+:\s*', '', line)\<close>.\<close>

definition strip_speaker_label :: "string \<Rightarrow> string" where
  "strip_speaker_label line =
     (let r = drop 8 line;
          ds = takeWhile is_digit r;
          r2 = dropWhile is_digit r
      in if take 8 line = ''Speaker '' \<and> ds \<noteq> [] \<and> take 1 r2 = '':''
         then dropWhile is_space (drop 1 r2) else line)"

definition extract_summary :: "string \<Rightarrow> string" where
  "extract_summary text =
     join '' '' (map strip_speaker_label
       (take 2 (filter (\<lambda>l. l \<noteq> []) (map strip (split nl text)))))"

definition extract_tasks :: "string \<Rightarrow> string list" where
  "extract_tasks text =
     map strip (filter (\<lambda>line. contains ''will'' (lower line) \<or> contains ''action'' (lower line)
                              \<or> contains ''todo'' (lower line)) (split nl text))"

definition extract_decisions :: "string \<Rightarrow> string list" where
  "extract_decisions text =
     map strip (filter (\<lambda>line. contains ''decided'' (lower line) \<or> contains ''agree'' (lower line))
                  (split nl text))"

text \<open>
  \<open>content["text"]\<close> raises \<open>KeyError\<close> when the key is missing; the string methods
  called on the value raise \<open>AttributeError\<close> when it is not a string.
\<close>

definition get_text :: "pydict \<Rightarrow> py_error + string" where
  "get_text c =
     (case map_of c ''text'' of
        None \<Rightarrow> Inl (KeyError ''text'')
      | Some (PStr t) \<Rightarrow> Inr t
      | Some v \<Rightarrow> Inl AttributeError)"

text \<open>\<open>extract\<close> is a command of Isabelle, so the stage function is \<open>extract_stage\<close>.\<close>

definition extract_stage :: "env \<Rightarrow> state \<Rightarrow> artifact \<Rightarrow> string \<Rightarrow> int \<Rightarrow> string list option \<Rightarrow> string option \<Rightarrow> (py_error + artifact) \<times> state" where
  "extract_stage e st transcript_artifact rid ver derived_from_override artifact_id_override =
     (case get_text (content transcript_artifact) of
        Inl err \<Rightarrow> (Inl err, st)
      | Inr transcript_text \<Rightarrow>
          persist e st rid ''extract'' (artifact_id transcript_artifact)
            \<lparr>artifact_id = choose_id e ''extraction'' rid ver artifact_id_override,
             atype = ''extraction'',
             content = [(''summary'', PStr (extract_summary transcript_text)),
                        (''tasks'', PList (map PStr (extract_tasks transcript_text))),
                        (''decisions'', PList (map PStr (extract_decisions transcript_text)))],
             derived_from = (case derived_from_override of Some ps \<Rightarrow> ps
                             | None \<Rightarrow> [artifact_id transcript_artifact]),
             referenced_context = [],
             confidence = fl (85 / 100),
             stage_metadata = metadata e ''rule-based'' [],
             status = ''draft'',
             version = ver,
             created_at = now e\<rparr>)"

section \<open>The contextualize stage (stages/context.py)\<close>

definition stopwords :: "string list" where
  "stopwords = [''the'', ''a'', ''an'', ''and'', ''or'', ''for'', ''to'', ''of'',
     ''in'', ''on'', ''at'', ''with'', ''we'', ''i'', ''it'',
     ''that'', ''this'', ''is'', ''are'', ''was'', ''were'']"

definition punctuation :: string where
  "punctuation = [CHR ''.'', CHR '','', CHR ''!'', CHR ''?'', CHR '';'', CHR '':'', CHR ''('',
     CHR '')'', CHR ''['', CHR '']'', CHR ''{'', CHR ''}'', CHR 0x22, CHR 0x27, CHR ''-'']"

definition summary_words :: "string \<Rightarrow> string list" where
  "summary_words summary =
     filter (\<lambda>w. w \<noteq> [] \<and> 3 \<le> length w \<and> w \<notin> set stopwords)
       (map (strip_by (\<lambda>c. c \<in> set punctuation)) (split_whitespace (lower summary)))"

definition retrieve_contexts :: "string \<Rightarrow> (string \<times> string) list \<Rightarrow> string list" where
  "retrieve_contexts summary files =
     map fst (filter (\<lambda>(context_id, context_content).
                        list_ex (\<lambda>w. contains w (lower context_content)) (summary_words summary))
                files)"

definition context_compute_confidence :: "rat \<Rightarrow> nat \<Rightarrow> rat" where
  "context_compute_confidence base_confidence num_contexts =
     min (fadd base_confidence (fmul (float_of_int (int num_contexts)) (fl (2 / 100))))
         (fl (95 / 100))"

definition contextualize :: "env \<Rightarrow> state \<Rightarrow> artifact \<Rightarrow> string \<Rightarrow> int \<Rightarrow> string list option \<Rightarrow> string option \<Rightarrow> (py_error + artifact) \<times> state" where
  "contextualize e st extraction_artifact rid ver derived_from_override artifact_id_override =
     (case dict_get (content extraction_artifact) ''summary'' (PStr []) of
        PStr summary \<Rightarrow>
          (let retrieved = retrieve_contexts summary (context_files e)
           in persist e st rid ''context_injection'' (artifact_id extraction_artifact)
                \<lparr>artifact_id = choose_id e ''contextualized'' rid ver artifact_id_override,
                 atype = ''contextualized_extraction'',
                 content = content extraction_artifact,
                 derived_from = (case derived_from_override of Some ps \<Rightarrow> ps
                                 | None \<Rightarrow> [artifact_id extraction_artifact]),
                 referenced_context = retrieved,
                 confidence = context_compute_confidence (confidence extraction_artifact)
                                (length retrieved),
                 stage_metadata = metadata e ''deterministic_context_injection'' retrieved,
                 status = ''draft'',
                 version = ver,
                 created_at = now e\<rparr>)
      | v \<Rightarrow> (Inl AttributeError, st))"

section \<open>The insight stage (stages/insight.py)\<close>

definition generate_recommendations :: "pydict \<Rightarrow> string list" where
  "generate_recommendations c =
     (let tasks = dict_get c ''tasks'' (PList []);
          decisions = dict_get c ''decisions'' (PList [])
      in (if truthy tasks then [''Review task ownership and deadlines.''] else [])
         @ (if truthy decisions then [''Validate decision impact on project timeline.''] else [])
         @ (if \<not> truthy tasks then [''No action items detected.''] else []))"

definition generate_risk_flags :: "rat \<Rightarrow> string list" where
  "generate_risk_flags conf = (if conf < fl (88 / 100) then [''low_confidence''] else [])"

definition insight_compute_confidence :: "rat \<Rightarrow> rat" where
  "insight_compute_confidence base_confidence =
     max (fsub base_confidence (fl (3 / 100))) (fl (70 / 100))"

definition generate_insight :: "env \<Rightarrow> state \<Rightarrow> artifact \<Rightarrow> string \<Rightarrow> int \<Rightarrow> string list option \<Rightarrow> string option \<Rightarrow> (py_error + artifact) \<times> state" where
  "generate_insight e st contextualized_artifact rid ver derived_from_override artifact_id_override =
     persist e st rid ''insight'' (artifact_id contextualized_artifact)
       \<lparr>artifact_id = choose_id e ''insight'' rid ver artifact_id_override,
        atype = ''insight'',
        content =
          [(''recommendations'',
              PList (map PStr (generate_recommendations (content contextualized_artifact)))),
           (''risk_flags'',
              PList (map PStr (generate_risk_flags (confidence contextualized_artifact)))),
           (''source_summary'', dict_get (content contextualized_artifact) ''summary'' (PStr []))],
        derived_from = (case derived_from_override of Some ps \<Rightarrow> ps
                        | None \<Rightarrow> [artifact_id contextualized_artifact]),
        referenced_context = referenced_context contextualized_artifact,
        confidence = insight_compute_confidence (confidence contextualized_artifact),
        stage_metadata = metadata e ''deterministic_interpretation''
                           (referenced_context contextualized_artifact),
        status = ''draft'',
        version = ver,
        created_at = now e\<rparr>"

section \<open>The validate stage (stages/validate.py)\<close>

definition compute_validation_score :: "rat \<Rightarrow> pyval \<Rightarrow> string list \<Rightarrow> py_error + rat" where
  "compute_validation_score conf risk_flags ctx =
     (case str_in ''low_confidence'' risk_flags of
        Inl err \<Rightarrow> Inl err
      | Inr flagged \<Rightarrow>
          (let score1 = (if flagged then fsub conf (fl (5 / 100)) else conf);
               score2 = (if ctx = [] then fsub score1 (fl (5 / 100)) else score1)
           in Inr (max score2 (fl (60 / 100)))))"

definition assess_hallucination_risk :: "string list \<Rightarrow> rat \<Rightarrow> string" where
  "assess_hallucination_risk ctx conf =
     (if ctx = [] then ''medium'' else if conf < fl (80 / 100) then ''medium'' else ''low'')"

definition determine_status :: "rat \<Rightarrow> string" where
  "determine_status validation_score =
     (if fl (85 / 100) \<le> validation_score then ''validated'' else ''review_required'')"

definition validate :: "env \<Rightarrow> state \<Rightarrow> artifact \<Rightarrow> string \<Rightarrow> int \<Rightarrow> string list option \<Rightarrow> string option \<Rightarrow> (py_error + artifact) \<times> state" where
  "validate e st insight_artifact rid ver derived_from_override artifact_id_override =
     (case compute_validation_score (confidence insight_artifact)
             (dict_get (content insight_artifact) ''risk_flags'' (PList []))
             (referenced_context insight_artifact) of
        Inl err \<Rightarrow> (Inl err, st)
      | Inr validation_score \<Rightarrow>
          persist e st rid ''validation'' (artifact_id insight_artifact)
            \<lparr>artifact_id = choose_id e ''validated'' rid ver artifact_id_override,
             atype = ''validated_insight'',
             content =
               [(''recommendations'',
                   dict_get (content insight_artifact) ''recommendations'' (PList [])),
                (''risk_flags'', dict_get (content insight_artifact) ''risk_flags'' (PList [])),
                (''validation_score'', PFloat validation_score),
                (''hallucination_risk'',
                   PStr (assess_hallucination_risk (referenced_context insight_artifact)
                           (confidence insight_artifact)))],
             derived_from = (case derived_from_override of Some ps \<Rightarrow> ps
                             | None \<Rightarrow> [artifact_id insight_artifact]),
             referenced_context = referenced_context insight_artifact,
             confidence = validation_score,
             stage_metadata = metadata e ''deterministic_validation''
                                (referenced_context insight_artifact),
             status = determine_status validation_score,
             version = ver,
             created_at = now e\<rparr>)"

section \<open>Replay (cli.py)\<close>

text \<open>The stage names that the command line accepts for \<open>--stage\<close>.\<close>

datatype stage_name = Normalize | Extract | Contextualize | Insight | Validate

fun stage_str :: "stage_name \<Rightarrow> string" where
  "stage_str Normalize = ''normalize''"
| "stage_str Extract = ''extract''"
| "stage_str Contextualize = ''contextualize''"
| "stage_str Insight = ''insight''"
| "stage_str Validate = ''validate''"

text \<open>
  \<open>re.sub(r'_v\d+$', '', artifact_id)\<close>. \<open>$\<close> matches at the end of the string
  and before a newline that ends it, so the leftmost suffix of the form \<open>_v\<close>,
  digits, and possibly that newline, loses the \<open>_v\<close> and the digits.
\<close>

definition is_version_suffix :: "string \<Rightarrow> bool" where
  "is_version_suffix s =
     (let ds = takeWhile is_digit (drop 2 s);
          rest = dropWhile is_digit (drop 2 s)
      in take 2 s = ''_v'' \<and> ds \<noteq> [] \<and> (rest = [] \<or> rest = [nl]))"

fun strip_version :: "string \<Rightarrow> string" where
  "strip_version [] = []"
| "strip_version (c # cs) =
     (if is_version_suffix (c # cs) then dropWhile is_digit (drop 2 (c # cs))
      else c # strip_version cs)"

text \<open>\<open>'_'.join(artifact_id.split('_')[2:-1])\<close>.\<close>

definition run_id_of :: "string \<Rightarrow> string" where
  "run_id_of i = join ''_'' (drop 2 (butlast (split (CHR ''_'') i)))"

definition run_stage :: "env \<Rightarrow> state \<Rightarrow> stage_name \<Rightarrow> artifact \<Rightarrow> string \<Rightarrow> int \<Rightarrow> string list option \<Rightarrow> string option \<Rightarrow> (py_error + artifact) \<times> state" where
  "run_stage e st sn input_artifact rid ver dfo aio =
     (case sn of
        Normalize \<Rightarrow>
          (case get_text (content input_artifact) of
             Inl err \<Rightarrow> (Inl err, st)
           | Inr raw_text \<Rightarrow> normalize e st raw_text rid ver dfo aio)
      | Extract \<Rightarrow> extract_stage e st input_artifact rid ver dfo aio
      | Contextualize \<Rightarrow> contextualize e st input_artifact rid ver dfo aio
      | Insight \<Rightarrow> generate_insight e st input_artifact rid ver dfo aio
      | Validate \<Rightarrow> validate e st input_artifact rid ver dfo aio)"

text \<open>
  \<open>replay\<close> returns nothing; what it tells its caller is what it prints. When a stage
  other than normalize is asked for and \<open>derived_from\<close> is empty, it prints two lines
  and returns; otherwise it runs the stage and prints the report of the new artifact
  under \<open>REPLAY COMPLETE\<close>. Both are returns: \<open>Inr\<close> with the lines of the error
  message or with the artifact that the report shows. \<open>Inl\<close> is an exception, which
  \<open>replay\<close> does not catch.
\<close>

datatype replay_output = ErrorPrinted "string list" | ReplayComplete artifact

definition replay :: "env \<Rightarrow> state \<Rightarrow> string \<Rightarrow> stage_name \<Rightarrow> (py_error + replay_output) \<times> state" where
  "replay e st i sn =
     (case load_artifact (now e) (artifacts st) i of
        Inl err \<Rightarrow> (Inl err, st)
      | Inr original \<Rightarrow>
          (let rid = run_id_of i;
               new_version = version original + 1;
               new_artifact_id =
                 strip_version (artifact_id original) @ ''_v'' @ str_int new_version;
               run = (\<lambda>input_artifact.
                        case run_stage e st sn input_artifact rid new_version
                               (Some [artifact_id original]) (Some new_artifact_id) of
                          (Inl err, st') \<Rightarrow> (Inl err, st')
                        | (Inr new_artifact, st') \<Rightarrow> (Inr (ReplayComplete new_artifact), st'))
           in if sn \<noteq> Normalize then
                (case derived_from original of
                   [] \<Rightarrow>
                     (Inr (ErrorPrinted
                        [''Error: Artifact '' @ i @ '' has no parent (derived_from is empty)'',
                         ''Cannot replay '' @ stage_str sn @ '' stage without input artifact'']),
                      st)
                 | parent_id # ps \<Rightarrow>
                     (case load_artifact (now e) (artifacts st) parent_id of
                        Inl err \<Rightarrow> (Inl err, st)
                      | Inr input_artifact \<Rightarrow> run input_artifact))
              else run original))"

section \<open>Example data\<close>

definition ex_env :: env where
  "ex_env = \<lparr>date_str = ''20240102'', log_date = ''2024-01-02'',
             now = ''2024-01-02T00:00:00Z'', measured_latency = 0,
             context_files = [(''ctx_budget'', ''Budget plan 2024''),
                              (''ctx_review'', ''Quarterly review notes''),
                              (''ctx_hiring'', ''Hiring''),
                              (''ctx_ledger'', ''Goodwill ledger'')]\<rparr>"

definition ex_transcript :: artifact where
  "ex_transcript =
     \<lparr>artifact_id = ''transcript_20240101_r1_v1'', atype = ''transcript'',
      content = [(''text'', PStr ''Speaker 1: We will review the budget'')],
      derived_from = [], referenced_context = [], confidence = fl (95 / 100),
      stage_metadata = [], status = ''draft'', version = 1,
      created_at = ''2024-01-01T00:00:00Z''\<rparr>"

definition ex_extraction :: artifact where
  "ex_extraction =
     \<lparr>artifact_id = ''extraction_20240101_r1_v1'', atype = ''extraction'',
      content = [(''summary'', PStr ''We will review the budget''),
                 (''tasks'', PList [PStr ''Speaker 1: We will review the budget'']),
                 (''decisions'', PList [])],
      derived_from = [''transcript_20240101_r1_v1''], referenced_context = [],
      confidence = fl (85 / 100), stage_metadata = [], status = ''draft'', version = 1,
      created_at = ''2024-01-01T00:00:00Z''\<rparr>"

definition ex_insight :: artifact where
  "ex_insight =
     \<lparr>artifact_id = ''insight_20240101_r1_v1'', atype = ''insight'',
      content = [(''recommendations'', PList [PStr ''No action items detected.'']),
                 (''risk_flags'', PList [PStr ''low_confidence'']),
                 (''source_summary'', PStr [])],
      derived_from = [''contextualized_20240101_r1_v1''], referenced_context = [],
      confidence = fl (70 / 100), stage_metadata = [], status = ''draft'', version = 1,
      created_at = ''2024-01-01T00:00:00Z''\<rparr>"

text \<open>The file that \<open>save_artifact\<close> leaves for an artifact.\<close>

definition file_of :: "artifact \<Rightarrow> file_text" where
  "file_of a = (case json_dump (to_dict a) of None \<Rightarrow> Truncated | Some j \<Rightarrow> Json j)"

definition ex_state :: state where
  "ex_state =
     \<lparr>artifacts = [(''transcript_20240101_r1_v1'', file_of ex_transcript),
                   (''extraction_20240101_r1_v1'', file_of ex_extraction)],
      telemetry = []\<rparr>"




definition ex_versions :: store where
  "ex_versions = [(''art_001_v2'', Json (JObj [])), (''art_001_v10'', Json (JObj [])),
                    (''art_002_v1'', Json (JObj []))]"

text \<open>
  The version number that an id ends with, as the specification asks \<open>listVersions\<close>
  to read it: the value of the trailing decimal digits.
\<close>

definition trailing_version :: "string \<Rightarrow> nat" where
  "trailing_version i =
     foldl (\<lambda>n c. 10 * n + (of_char c - 48)) 0 (rev (takeWhile is_digit (rev i)))"

text \<open>Replaying extract on the extraction of the example, and again on the result.\<close>

definition replay_once :: "(py_error + replay_output) \<times> state" where
  "replay_once = replay ex_env ex_state ''extraction_20240101_r1_v1'' Extract"

definition replay_twice :: "(py_error + replay_output) \<times> state" where
  "replay_twice = replay ex_env (snd replay_once) ''extraction_20240101_r1_v2'' Extract"

text \<open>
  For the statements about the speaker labels. A line shows a speaker name when it
  starts with an ASCII letter and at least one more character stands before its first
  colon, all characters before that colon being ASCII letters or whitespace; the name is
  that beginning of the line, stripped of whitespace, and the dialogue is what follows
  the colon, without the whitespace it starts with.
\<close>

definition name_prefix :: "string \<Rightarrow> string option" where
  "name_prefix line =
     (let n = takeWhile (\<lambda>c. c \<noteq> CHR '':'') line
      in if CHR '':'' \<in> set line \<and> 2 \<le> length n \<and> is_alpha (hd n)
            \<and> list_all (\<lambda>c. is_alpha c \<or> is_space c) n
         then Some (strip n) else None)"

definition dialogue_of :: "string \<Rightarrow> string" where
  "dialogue_of line = dropWhile is_space (drop 1 (dropWhile (\<lambda>c. c \<noteq> CHR '':'') line))"

text \<open>
  The position of a name in a list, the names of a list in the order of their first
  appearance, the names that the lines show, and a line with its name replaced by the
  label of the name's position.
\<close>

fun index_of :: "'a list \<Rightarrow> 'a \<Rightarrow> nat" where
  "index_of [] x = 0"
| "index_of (y # ys) x = (if x = y then 0 else Suc (index_of ys x))"

fun new_names :: "string list \<Rightarrow> string list \<Rightarrow> string list" where
  "new_names seen [] = []"
| "new_names seen (x # xs) =
     (if x \<in> set seen then new_names seen xs else x # new_names (seen @ [x]) xs)"

definition line_names :: "string list \<Rightarrow> string list" where
  "line_names lines = List.map_filter name_prefix lines"

definition speaker_names :: "string list \<Rightarrow> string list" where
  "speaker_names lines = new_names [] (line_names lines)"

definition relabel :: "string list \<Rightarrow> string \<Rightarrow> string" where
  "relabel order line =
     (case name_prefix line of
        None \<Rightarrow> line
      | Some speaker_name \<Rightarrow>
          ''Speaker '' @ str_nat (index_of order speaker_name + 1) @ '': '' @ dialogue_of line)"

text \<open>The labels for three speakers \<open>A\<close>, \<open>B\<close>, \<open>C\<close> in this order.\<close>

definition label3 :: "string \<Rightarrow> string \<Rightarrow> string \<Rightarrow> string \<Rightarrow> string" where
  "label3 A B C speaker_name =
     (if speaker_name = A then ''Speaker 1''
      else if speaker_name = B then ''Speaker 2'' else ''Speaker 3'')"

definition relabel3 :: "string \<Rightarrow> string \<Rightarrow> string \<Rightarrow> string \<Rightarrow> string" where
  "relabel3 A B C line =
     (case name_prefix line of
        None \<Rightarrow> line
      | Some speaker_name \<Rightarrow> label3 A B C speaker_name @ '': '' @ dialogue_of line)"

text \<open>
  Transcripts whose three speakers the stage does not find: names of one letter, and
  names with a period, a hyphen or a digit.
\<close>

definition ex_letters :: string where
  "ex_letters = ''A: hi'' @ [nl] @ ''B: yo'' @ [nl] @ ''C: ok'' @ [nl] @ ''A: bye''"

definition ex_titles :: string where
  "ex_titles = ''Dr. Who: hi'' @ [nl] @ ''Jean-Luc: yo'' @ [nl] @ ''Agent 7: ok''"

text \<open>A transcript with three speakers, and the store after normalizing \<open>Alice:\<close>.\<close>

definition ex_raw :: string where
  "ex_raw = ''Ann: hi'' @ [nl] @ ''Bob: yo'' @ [nl, nl, nl] @ ''Ann: ok'' @ [nl] @ ''note'' @ [nl]
            @ ''Cy: x'' @ [nl]"

definition ex_alice_state :: state where
  "ex_alice_state =
     snd (normalize ex_env \<lparr>artifacts = [], telemetry = []\<rparr> ''Alice:'' ''r1'' 1 None None)"


text \<open>
  The shape of the blank lines that \<open>_clean_text\<close> leaves: between the first and the
  last line no line is made of whitespace unless it is empty, and no two empty lines
  follow each other.
\<close>

fun good_lines :: "string list \<Rightarrow> bool" where
  "good_lines (l # m # n # rest) =
     (\<not> (list_all is_space m \<and> m \<noteq> []) \<and> \<not> (m = [] \<and> n = [] \<and> rest \<noteq> [])
      \<and> good_lines (m # n # rest))"
| "good_lines ls = True"

section \<open>Properties of the store\<close>

lemma as_strs_map: "as_strs k (map PStr ss) = Inr ss"
  by (induction ss) simp_all

lemma from_dict_to_dict: "from_dict t (to_dict a) = Inr a"
  by (simp add: to_dict_def field_names_def required_def optional_def bind_def as_strs_map)


text \<open>Writing a value that JSON has and reading it back gives the value.\<close>

lemma those_map_inverse:
  "(\<And>x. x \<in> set xs \<Longrightarrow> \<exists>y. f x = Some y \<and> g y = x) \<Longrightarrow>
     \<exists>ys. those (map f xs) = Some ys \<and> map g ys = xs"
proof (induction xs)
  case Nil
  then show ?case by simp
next
  case (Cons x xs)
  from Cons.prems[of x] obtain y where y: "f x = Some y" "g y = x" by auto
  from Cons.IH Cons.prems obtain ys where ys: "those (map f xs) = Some ys" "map g ys = xs"
    by auto
  from y ys show ?case by simp
qed

lemma json_native_roundtrip:
  "json_native v \<Longrightarrow> \<exists>j. json_dump v = Some j \<and> json_load j = v"
proof (induction v)
  case (PList vs)
  have "\<exists>js. those (map json_dump vs) = Some js \<and> map json_load js = vs"
  proof (rule those_map_inverse)
    fix x assume "x \<in> set vs"
    with PList show "\<exists>y. json_dump x = Some y \<and> json_load y = x"
      by (auto simp: list_all_iff)
  qed
  then show ?case by auto
next
  case (PDict d)
  let ?f = "\<lambda>kv. map_option (Pair (fst kv)) (snd kv)"
  have "\<exists>js. those (map (?f \<circ> map_prod id json_dump) d) = Some js
          \<and> map (map_prod id json_load) js = d"
  proof (rule those_map_inverse)
    fix x assume x: "x \<in> set d"
    obtain k v where kv: "x = (k, v)" by (cases x)
    from x kv PDict.prems have "json_native v" by (auto simp: list_all_iff)
    moreover from x kv have "v \<in> Basic_BNFs.snds x" by simp
    ultimately obtain j where "json_dump v = Some j" "json_load j = v"
      using PDict.IH[OF x] by blast
    with kv show "\<exists>y. (?f \<circ> map_prod id json_dump) x = Some y \<and> map_prod id json_load y = x"
      by simp
  qed
  then show ?case by auto
qed simp_all




text \<open>
  Claim C1. Saving an artifact whose id is already present in the store fails with
  \<open>FileExistsError\<close> (the AlreadyExists failure), and the store after the call is the
  store before it: the record kept under that id is the one that was there, and nothing
  was written.
\<close>

theorem save_existing_rejected:
  "exists s (artifact_id a) \<Longrightarrow>
     save_artifact s a = (Inl (FileExistsError (artifact_id a)), s)
     \<and> map_of (snd (save_artifact s a)) (artifact_id a) = map_of s (artifact_id a)"
  by (simp add: save_artifact_def)

theorem save_existing_rejected_witness:
  "exists (artifacts ex_state) (artifact_id ex_transcript)
   \<and> save_artifact (artifacts ex_state) ex_transcript
       = (Inl (FileExistsError ''transcript_20240101_r1_v1''), artifacts ex_state)"
proof -
  have "exists (artifacts ex_state) (artifact_id ex_transcript)" by code_simp
  with save_existing_rejected [of "artifacts ex_state" ex_transcript]
  show ?thesis by (simp add: ex_transcript_def)
qed




section \<open>Properties of the floats\<close>

lemma pow2_pos: "(0::rat) < 2 powi n"
  by (simp add: zero_less_power_int)

lemma ilog2_lower:
  assumes "0 < x"
  shows "2 powi (ilog2 x) \<le> x"
proof -
  obtain p q where pq: "quotient_of x = (p, q)" by (cases "quotient_of x")
  have q: "0 < q" using pq quotient_of_denom_pos by blast
  have x: "x = of_int p / of_int q" using pq quotient_of_div by blast
  have p: "0 < p" using assms q x by (simp add: zero_less_divide_iff)
  define n where "n = bitlen p - bitlen q"
  have bp: "2 ^ nat (bitlen p - 1) \<le> p" using bitlen_bounds[OF p] by simp
  have bq: "q < 2 ^ nat (bitlen q)" using bitlen_bounds[OF q] by simp
  have bp1: "1 \<le> bitlen p" using p by (simp add: bitlen_alt_def)
  have bq0: "0 \<le> bitlen q" by (rule bitlen_nonneg)
  have "(2::rat) powi (n - 1) = 2 powi (bitlen p - 1) / 2 powi (bitlen q)"
    unfolding n_def by (simp add: power_int_diff)
  also have "\<dots> = 2 ^ nat (bitlen p - 1) / 2 ^ nat (bitlen q)"
    using bp1 bq0 by (simp add: power_int_def)
  also have "\<dots> \<le> of_int p / of_int q"
  proof -
    have a: "(2::rat) ^ nat (bitlen p - 1) \<le> of_int p"
      using bp by (metis of_int_le_iff of_int_numeral of_int_power)
    have b: "of_int q \<le> (2::rat) ^ nat (bitlen q)"
      using bq by (metis less_imp_le of_int_le_iff of_int_numeral of_int_power)
    have c: "(0::rat) < of_int q" using q by simp
    show ?thesis
      by (rule frac_le) (use a b c p in simp_all)
  qed
  finally have low: "(2::rat) powi (n - 1) \<le> x" using x by simp
  show ?thesis
    using low by (simp add: ilog2_def pq n_def Let_def)
qed


lemma rhe_le_int: "x \<le> of_int n \<Longrightarrow> round_half_even x \<le> n"
proof -
  assume a: "x \<le> of_int n"
  have f: "\<lfloor>x\<rfloor> \<le> n" using a by (simp add: floor_le_iff)
  show ?thesis
  proof (cases "\<lfloor>x\<rfloor> = n")
    case True
    then have "x = of_int n" using a
      by (metis of_int_floor_le order_antisym)
    then show ?thesis by (simp add: round_half_even_def)
  next
    case False
    then have "\<lfloor>x\<rfloor> + 1 \<le> n" using f by simp
    then show ?thesis
      using f by (auto simp: round_half_even_def Let_def)
  qed
qed

lemma rhe_ge_int: "of_int n \<le> x \<Longrightarrow> n \<le> round_half_even x"
proof -
  assume a: "of_int n \<le> x"
  have f: "n \<le> \<lfloor>x\<rfloor>" using a by (simp add: le_floor_iff)
  then show ?thesis by (auto simp: round_half_even_def Let_def)
qed

lemma rhe_err: "\<bar>of_int (round_half_even x) - x\<bar> \<le> 1 / 2"
proof -
  define f where "f = \<lfloor>x\<rfloor>"
  have 1: "of_int f \<le> x" unfolding f_def by simp
  have 2: "x < of_int f + 1" unfolding f_def by linarith
  show ?thesis
    unfolding round_half_even_def Let_def f_def[symmetric]
    using 1 2 by (simp add: abs_if)
qed

lemma fl_nonneg: "0 \<le> x \<Longrightarrow> 0 \<le> fl x"
proof -
  assume a: "0 \<le> x"
  have "\<And>q. 0 \<le> round_half_even (x / 2 powi q)"
    by (rule rhe_ge_int) (use a pow2_pos in \<open>simp add: less_imp_le\<close>)
  then show ?thesis
    by (simp add: fl_def Let_def less_imp_le[OF pow2_pos])
qed

lemma fl_nonpos: "x \<le> 0 \<Longrightarrow> fl x \<le> 0"
proof -
  assume a: "x \<le> 0"
  have "\<And>q. round_half_even (x / 2 powi q) \<le> 0"
    by (rule rhe_le_int) (use a pow2_pos in \<open>simp add: divide_le_0_iff less_imp_le\<close>)
  then show ?thesis
    by (simp add: fl_def Let_def mult_le_0_iff less_imp_le[OF pow2_pos])
qed

lemma ilog2_le: "0 < x \<Longrightarrow> x \<le> 2 powi k \<Longrightarrow> ilog2 x \<le> k"
proof -
  assume a: "0 < x" and b: "x \<le> 2 powi k"
  have c: "(2::rat) powi (ilog2 x) \<le> 2 powi k" using ilog2_lower[OF a] b by simp
  show ?thesis
  proof (rule ccontr)
    assume "\<not> ilog2 x \<le> k"
    then have "(2::rat) powi k < 2 powi (ilog2 x)"
      by (intro power_int_strict_increasing) simp_all
    with c show False by simp
  qed
qed

lemma fl_le_pow2:
  assumes "x \<le> 2 powi k" and "- 1022 \<le> k"
  shows "fl x \<le> 2 powi k"
proof (cases "0 < x")
  case False
  then have "fl x \<le> 0" by (simp add: fl_nonpos)
  then show ?thesis using pow2_pos[of k] by linarith
next
  case True
  define q where "q = max (ilog2 \<bar>x\<bar>) (- 1022) - 52"
  have e: "ilog2 \<bar>x\<bar> \<le> k" using True assms(1) by (simp add: ilog2_le)
  have qk: "q \<le> k" unfolding q_def using e assms(2) by simp
  have grid: "(2::rat) powi k = of_int (2 ^ nat (k - q)) * 2 powi q"
  proof -
    have "(2::rat) powi k = 2 powi (k - q) * 2 powi q"
      by (simp add: power_int_add[symmetric])
    also have "(2::rat) powi (k - q) = of_int (2 ^ nat (k - q))"
      using qk by (simp add: power_int_def)
    finally show ?thesis .
  qed
  have "x / 2 powi q \<le> of_int (2 ^ nat (k - q))"
    using assms(1) grid pow2_pos[of q] by (simp add: pos_divide_le_eq)
  then have "round_half_even (x / 2 powi q) \<le> 2 ^ nat (k - q)"
    by (rule rhe_le_int)
  then have "of_int (round_half_even (x / 2 powi q)) * 2 powi q \<le> of_int (2 ^ nat (k - q)) * (2::rat) powi q"
    by (intro mult_right_mono) (simp_all add: less_imp_le[OF pow2_pos])
  then show ?thesis
    using True grid by (simp add: fl_def Let_def q_def)
qed

lemma fl_le_one: "x \<le> 1 \<Longrightarrow> fl x \<le> 1"
  using fl_le_pow2[of x 0] by simp

lemma ilog2_upper:
  assumes "0 < x"
  shows "x < 2 powi (ilog2 x + 1)"
proof -
  obtain p q where pq: "quotient_of x = (p, q)" by (cases "quotient_of x")
  have q: "0 < q" using pq quotient_of_denom_pos by blast
  have x: "x = of_int p / of_int q" using pq quotient_of_div by blast
  have p: "0 < p" using assms q x by (simp add: zero_less_divide_iff)
  define n where "n = bitlen p - bitlen q"
  have bp: "p < 2 ^ nat (bitlen p)" using bitlen_bounds[OF p] by simp
  have bq: "2 ^ nat (bitlen q - 1) \<le> q" using bitlen_bounds[OF q] by simp
  have bq1: "1 \<le> bitlen q" using q by (simp add: bitlen_alt_def)
  have bp0: "0 \<le> bitlen p" by (rule bitlen_nonneg)
  have a: "of_int p < (2::rat) ^ nat (bitlen p)"
    using bp by (metis of_int_less_iff of_int_numeral of_int_power)
  have b: "(2::rat) ^ nat (bitlen q - 1) \<le> of_int q"
    using bq by (metis of_int_le_iff of_int_numeral of_int_power)
  have "of_int p / of_int q < (2::rat) ^ nat (bitlen p) / 2 ^ nat (bitlen q - 1)"
    by (rule frac_less) (use a b p in simp_all)
  also have "\<dots> = 2 powi (bitlen p) / 2 powi (bitlen q - 1)"
    using bq1 bp0 by (simp add: power_int_def)
  also have "\<dots> = 2 powi (bitlen p - (bitlen q - 1))"
    by (subst power_int_diff) simp_all
  also have "bitlen p - (bitlen q - 1) = n + 1"
    unfolding n_def by simp
  finally have up: "x < 2 powi (n + 1)" using x by simp
  show ?thesis
    using up by (auto simp: ilog2_def pq n_def Let_def)
qed

lemma ilog2_less: "0 < x \<Longrightarrow> x < 2 powi k \<Longrightarrow> ilog2 x < k"
proof -
  assume a: "0 < x" and b: "x < 2 powi k"
  have c: "(2::rat) powi (ilog2 x) < 2 powi k" using ilog2_lower[OF a] b by simp
  show ?thesis
  proof (rule ccontr)
    assume "\<not> ilog2 x < k"
    then have "(2::rat) powi k \<le> 2 powi (ilog2 x)"
      by (intro power_int_increasing) simp_all
    with c show False by simp
  qed
qed

lemma ilog2_ge: "0 < x \<Longrightarrow> 2 powi k \<le> x \<Longrightarrow> k \<le> ilog2 x"
proof -
  assume a: "0 < x" and b: "2 powi k \<le> x"
  have c: "(2::rat) powi k < 2 powi (ilog2 x + 1)" using ilog2_upper[OF a] b by simp
  show ?thesis
  proof (rule ccontr)
    assume "\<not> k \<le> ilog2 x"
    then have "(2::rat) powi (ilog2 x + 1) \<le> 2 powi k"
      by (intro power_int_increasing) simp_all
    with c show False by simp
  qed
qed

lemma fl_unfold:
  "x \<noteq> 0 \<Longrightarrow> q = max (ilog2 \<bar>x\<bar>) (- 1022) - 52 \<Longrightarrow>
     fl x = of_int (round_half_even (x / 2 powi q)) * 2 powi q"
  by (simp add: fl_def Let_def)

lemma fl_error:
  assumes "0 < x" and "x \<le> 2 powi k" and "- 1022 \<le> k"
  shows "\<bar>fl x - x\<bar> \<le> 2 powi (k - 53)"
proof -
  define q where "q = max (ilog2 \<bar>x\<bar>) (- 1022) - 52"
  have e: "ilog2 \<bar>x\<bar> \<le> k" using assms(1,2) by (simp add: ilog2_le)
  have qk: "q \<le> k - 52" unfolding q_def using e assms(3) by simp
  have f: "fl x = of_int (round_half_even (x / 2 powi q)) * 2 powi q"
    using assms(1) by (intro fl_unfold) (simp_all add: q_def)
  have "fl x - x = (of_int (round_half_even (x / 2 powi q)) - x / 2 powi q) * 2 powi q"
    unfolding f using pow2_pos[of q] by (simp add: field_simps)
  then have "\<bar>fl x - x\<bar> = \<bar>of_int (round_half_even (x / 2 powi q)) - x / 2 powi q\<bar> * 2 powi q"
    using pow2_pos[of q] by (simp add: abs_mult)
  also have "\<dots> \<le> (1 / 2) * 2 powi q"
    by (intro mult_right_mono rhe_err) (simp add: less_imp_le[OF pow2_pos])
  also have "\<dots> = 2 powi (q - 1)"
    by (simp add: power_int_diff)
  also have "\<dots> \<le> 2 powi (k - 53)"
    using qk by (intro power_int_increasing) simp_all
  finally show ?thesis .
qed

lemma fl_ge_pow2:
  assumes "2 powi k \<le> x" and "- 1022 \<le> k"
  shows "2 powi k \<le> fl x"
proof -
  have x: "0 < x" using assms(1) pow2_pos[of k] by linarith
  define e where "e = ilog2 \<bar>x\<bar>"
  have ek: "k \<le> e" unfolding e_def using x assms(1) by (simp add: ilog2_ge)
  define q where "q = max e (- 1022) - 52"
  have qe: "q = e - 52" unfolding q_def using ek assms(2) by simp
  have f: "fl x = of_int (round_half_even (x / 2 powi q)) * 2 powi q"
    using x by (intro fl_unfold) (simp_all add: q_def e_def)
  have "(2::rat) powi e \<le> x" unfolding e_def using x ilog2_lower[of x] by simp
  then have "of_int (2 ^ 52) \<le> x / 2 powi q"
    using pow2_pos[of q] unfolding qe
    by (simp add: pos_le_divide_eq power_int_diff field_simps)
  then have "2 ^ 52 \<le> round_half_even (x / 2 powi q)" by (rule rhe_ge_int)
  then have "of_int (2 ^ 52) * (2::rat) powi q \<le> of_int (round_half_even (x / 2 powi q)) * 2 powi q"
    by (intro mult_right_mono) (simp_all add: less_imp_le[OF pow2_pos])
  then have "(2::rat) powi e \<le> fl x"
    unfolding f qe by (simp add: power_int_diff)
  moreover have "(2::rat) powi k \<le> 2 powi e"
    using ek by (intro power_int_increasing) simp_all
  ultimately show ?thesis by linarith
qed

lemma rhe_of_int: "round_half_even (of_int z) = z"
  by (simp add: round_half_even_def)

lemma fl_nat_exact:
  assumes "n < 2 ^ 53"
  shows "fl (of_nat n) = of_nat n"
proof (cases "n = 0")
  case True
  then show ?thesis by (simp add: fl_def)
next
  case False
  define x :: rat where "x = of_nat n"
  have x: "0 < x" using False by (simp add: x_def)
  have "x < 2 powi 53"
    using assms unfolding x_def
    by (metis of_nat_less_iff of_nat_numeral of_nat_power power_int_numeral)
  then have e: "ilog2 \<bar>x\<bar> < 53" using x by (simp add: ilog2_less)
  define q where "q = max (ilog2 \<bar>x\<bar>) (- 1022) - 52"
  have q0: "q \<le> 0" unfolding q_def using e by simp
  have f: "fl x = of_int (round_half_even (x / 2 powi q)) * 2 powi q"
    using x by (intro fl_unfold) (simp_all add: q_def)
  have inv: "1 / (2::rat) powi q = of_int (2 ^ nat (- q))"
    using q0 by (simp add: power_int_def field_simps)
  have "x / 2 powi q = of_int (int n * 2 ^ nat (- q))"
    using inv by (simp add: x_def divide_inverse)
  then have "round_half_even (x / 2 powi q) = int n * 2 ^ nat (- q)"
    by (simp only: rhe_of_int)
  then have "fl x = of_int (int n * 2 ^ nat (- q)) * 2 powi q"
    using f by simp
  also have "\<dots> = x * (of_int (2 ^ nat (- q)) * 2 powi q)"
    by (simp add: x_def)
  also have "of_int (2 ^ nat (- q)) * (2::rat) powi q = 1"
    using inv[symmetric] pow2_pos[of q] by simp
  finally show ?thesis by (simp add: x_def)
qed

lemma c002_facts:
  "0 < fl (1 / 50)" "fl (1 / 50) \<le> 1 / 32" "1 / 64 \<le> fl (1 / 50)"
  "\<bar>fl (1 / 50) - 1 / 50\<bar> \<le> 1 / 2 ^ 59"
  by code_simp+

lemma c095_facts:
  "fl (19 / 20) \<le> 1" "\<bar>fl (19 / 20) - 19 / 20\<bar> \<le> 1 / 2 ^ 50"
  by code_simp+

lemma pow2_m52: "(2::rat) powi (1 - 53) = 1 / 2 ^ 52"
  by (simp add: power_int_def power_divide)

lemma pow2_m51: "(2::rat) powi (2 - 53) = 1 / 2 ^ 51"
  by (simp add: power_int_def power_divide)

lemma fl_error0:
  assumes "0 \<le> x" and "x \<le> 2 powi k" and "- 1022 \<le> k"
  shows "\<bar>fl x - x\<bar> \<le> 2 powi (k - 53)"
proof (cases "x = 0")
  case True
  then show ?thesis by (simp add: fl_def less_imp_le[OF pow2_pos])
next
  case False
  then show ?thesis using assms by (intro fl_error) simp_all
qed

lemma min_lipschitz:
  fixes a b c d :: rat
  shows "\<bar>a - c\<bar> \<le> r \<Longrightarrow> \<bar>b - d\<bar> \<le> r \<Longrightarrow> \<bar>min a b - min c d\<bar> \<le> r"
  by (simp add: min_def abs_if split: if_splits)

lemma context_confidence_error:
  assumes b0: "0 \<le> b" and b1: "b \<le> 1"
  shows "\<bar>context_compute_confidence b k - min (b + 2 / 100 * of_nat k) (95 / 100)\<bar> \<le> 1 / 2 ^ 50"
proof (cases "k < 64")
  case True
  let ?c = "fl (1 / 50) :: rat"
  have kf: "float_of_int (int k) = of_nat k"
    unfolding float_of_int_def using True fl_nat_exact[of k] by simp
  define y where "y = of_nat k * ?c"
  define p where "p = fl y"
  define s where "s = fl (b + p)"
  have kr: "(of_nat k :: rat) \<le> 64" using True by simp
  have y0: "0 \<le> y" unfolding y_def using c002_facts(1) by simp
  have "y \<le> 64 * (1 / 32)"
    unfolding y_def using kr c002_facts(1,2) by (intro mult_mono) simp_all
  then have y2: "y \<le> 2 powi 1" by simp
  have ep: "\<bar>p - y\<bar> \<le> 2 powi (1 - 53)"
    unfolding p_def using y0 y2 by (intro fl_error0) simp_all
  have "y - of_nat k / 50 = of_nat k * (?c - 1 / 50)"
    unfolding y_def by (simp add: algebra_simps)
  then have "\<bar>y - of_nat k / 50\<bar> = of_nat k * \<bar>?c - 1 / 50\<bar>"
    by (simp add: abs_mult)
  also have "\<dots> \<le> 64 * (1 / 2 ^ 59)"
    using kr c002_facts(4) by (intro mult_mono) simp_all
  finally have ey: "\<bar>y - of_nat k / 50\<bar> \<le> 1 / 2 ^ 53" by simp
  define u :: rat where "u = 1 / 2 ^ 53"
  have u: "0 < u" "u \<le> 1 / 2" "1 / 2 ^ 52 = 2 * u" "1 / 2 ^ 51 = 4 * u" "1 / 2 ^ 50 = 8 * u"
    by (simp_all add: u_def)
  have ey': "\<bar>y - of_nat k / 50\<bar> \<le> u" using ey by (simp only: u_def)
  have ep': "\<bar>p - y\<bar> \<le> 2 * u" using ep by (simp only: pow2_m52 u(3))
  have p0: "0 \<le> p" unfolding p_def using y0 by (rule fl_nonneg)
  have yle: "y \<le> 2" using \<open>y \<le> 64 * (1 / 32)\<close> by simp
  have "b + p \<le> 4" using b1 yle ep' u(1,2) by linarith
  then have x4: "b + p \<le> 2 powi 2" by simp
  have "\<bar>s - (b + p)\<bar> \<le> 2 powi (2 - 53)"
    unfolding s_def using b0 p0 x4 by (intro fl_error0) simp_all
  then have es: "\<bar>s - (b + p)\<bar> \<le> 4 * u" by (simp only: pow2_m51 u(4))
  have "\<bar>s - (b + of_nat k / 50)\<bar> \<le> 8 * u"
    using es ep' ey' u(1) by linarith
  then have tot: "\<bar>s - (b + 2 / 100 * of_nat k)\<bar> \<le> 1 / 2 ^ 50"
    by (simp only: u(5))
  have "context_compute_confidence b k = min s (fl (19 / 20))"
    by (simp add: context_compute_confidence_def fadd_def fmul_def kf s_def p_def y_def)
  then show ?thesis
    using min_lipschitz[OF tot c095_facts(2)] by simp
next
  case False
  let ?c = "fl (1 / 50) :: rat"
  define kf where "kf = float_of_int (int k)"
  define p where "p = fl (kf * ?c)"
  define s where "s = fl (b + p)"
  have k64: "(64::rat) \<le> of_nat k" using False by simp
  have "(2::rat) powi 6 \<le> of_nat k" using k64 by simp
  then have "(2::rat) powi 6 \<le> fl (of_nat k)"
    by (intro fl_ge_pow2) simp_all
  then have kf64: "64 \<le> kf"
    unfolding kf_def float_of_int_def by simp
  have "64 * (1 / 64) \<le> kf * ?c"
    using kf64 c002_facts(3) by (intro mult_mono) simp_all
  then have "(2::rat) powi 0 \<le> kf * ?c" by simp
  then have "(2::rat) powi 0 \<le> p" unfolding p_def by (intro fl_ge_pow2) simp_all
  then have "(2::rat) powi 0 \<le> b + p" using b0 by simp
  then have "(2::rat) powi 0 \<le> s" unfolding s_def by (intro fl_ge_pow2) simp_all
  then have s1: "1 \<le> s" by simp
  have val: "context_compute_confidence b k = fl (19 / 20)"
    using s1 c095_facts(1)
    by (simp add: context_compute_confidence_def fadd_def fmul_def kf_def s_def p_def min_def)
  have "19 / 20 \<le> b + 2 / 100 * (of_nat k :: rat)" using k64 b0 by simp
  then have m: "min (b + 2 / 100 * of_nat k) (95 / 100) = (19 / 20 :: rat)" by (simp add: min_def)
  show ?thesis unfolding val m by (rule c095_facts(2))
qed

section \<open>Properties of the version suffix and of the stages\<close>

lemma digit_char_is_digit: "is_digit (digit_char n)"
  by (simp add: is_digit_def digit_char_def)

lemma str_nat_digits: "list_all is_digit (str_nat n)"
proof (induction n rule: str_nat.induct)
  case (1 n)
  show ?case
  proof (cases "n < 10")
    case True
    then show ?thesis by (subst str_nat.simps) (simp add: digit_char_is_digit)
  next
    case False
    then show ?thesis using 1 by (subst str_nat.simps) (simp add: digit_char_is_digit)
  qed
qed

lemma str_nat_nonempty: "str_nat n \<noteq> []"
  by (subst str_nat.simps) simp

lemma takeWhile_all: "list_all P xs \<Longrightarrow> takeWhile P xs = xs"
  by (induction xs) simp_all

lemma dropWhile_all: "list_all P xs \<Longrightarrow> dropWhile P xs = []"
  by (induction xs) simp_all

lemma dropWhile_keeps_tail:
  "\<not> P y \<Longrightarrow> Suc (length ys) \<le> length (dropWhile P (xs @ y # ys))"
  by (induction xs) simp_all

lemma is_version_suffix_digits:
  "ds \<noteq> [] \<Longrightarrow> list_all is_digit ds \<Longrightarrow> is_version_suffix (''_v'' @ ds)"
  by (simp add: is_version_suffix_def takeWhile_all dropWhile_all)

lemma not_digit_underscore: "\<not> is_digit (CHR ''_'')"
  by (simp add: is_digit_def)

lemma not_version_suffix_inside:
  assumes "ds \<noteq> []"
  shows "\<not> is_version_suffix (c # F @ ''_v'' @ ds)"
proof
  assume a: "is_version_suffix (c # F @ ''_v'' @ ds)"
  show False
  proof (cases F)
    case Nil
    with a show False by (simp add: is_version_suffix_def)
  next
    case (Cons d F')
    define r where "r = dropWhile is_digit (F' @ CHR ''_'' # CHR ''v'' # ds)"
    have len: "Suc (length (CHR ''v'' # ds)) \<le> length r"
      unfolding r_def by (rule dropWhile_keeps_tail) (rule not_digit_underscore)
    from a Cons have "r = [] \<or> r = [nl]"
      unfolding r_def by (simp add: is_version_suffix_def Let_def)
    then have "length r \<le> 1" by (elim disjE) simp_all
    with len show False by simp
  qed
qed

lemma strip_version_family:
  "ds \<noteq> [] \<Longrightarrow> list_all is_digit ds \<Longrightarrow> strip_version (F @ ''_v'' @ ds) = F"
proof (induction F)
  case Nil
  then show ?case
    using is_version_suffix_digits[of ds] by (simp add: dropWhile_all)
next
  case (Cons c F)
  then show ?case
    using not_version_suffix_inside[of ds c F] by simp
qed

lemma strip_version_str_int:
  "0 \<le> v \<Longrightarrow> strip_version (F @ ''_v'' @ str_int v) = F"
  using strip_version_family[of "str_nat (nat v)" F]
  by (simp add: str_int_def str_nat_digits str_nat_nonempty)

lemma persist_Inr:
  "persist e st rid sname inp a = (Inr out, st') \<Longrightarrow>
     out = a \<and> \<not> exists (artifacts st) (artifact_id a)"
  by (auto simp: persist_def save_artifact_def append_event_def
      split: if_splits location.splits option.splits)

lemma json_dump_list_ok:
  "(json_dump (PList vs) \<noteq> None) = (\<forall>v\<in>set vs. json_dump v \<noteq> None)"
proof -
  have "(those (map json_dump vs) \<noteq> None) = (\<forall>v\<in>set vs. json_dump v \<noteq> None)"
    by (induction vs) (auto split: option.splits)
  then show ?thesis by (cases "those (map json_dump vs)") simp_all
qed

lemma json_dump_dict_ok:
  "(json_dump (PDict d) \<noteq> None) = (\<forall>kv\<in>set d. json_dump (snd kv) \<noteq> None)"
proof -
  let ?xs = "\<lambda>d. map (\<lambda>kv. map_option (Pair (fst kv)) (snd kv)) (map (map_prod id json_dump) d)"
  have "(those (?xs d) \<noteq> None) = (\<forall>kv\<in>set d. json_dump (snd kv) \<noteq> None)"
    by (induction d) (auto split: option.splits)
  then show ?thesis by (cases "those (?xs d)") simp_all
qed

lemma json_dump_strs_ok: "json_dump (PList (map PStr xs)) \<noteq> None"
  unfolding json_dump_list_ok by (simp del: json_dump.simps(6,7,8))

lemma json_dump_to_dict_ok:
  "(json_dump (to_dict a) \<noteq> None) =
     (json_dump (PDict (content a)) \<noteq> None \<and> json_dump (PDict (stage_metadata a)) \<noteq> None)"
proof -
  have "(json_dump (to_dict a) \<noteq> None) = (\<forall>kv\<in>set
     [(''artifact_id'', PStr (artifact_id a)),
      (''type'', PStr (atype a)),
      (''content'', PDict (content a)),
      (''derived_from'', PList (map PStr (derived_from a))),
      (''referenced_context'', PList (map PStr (referenced_context a))),
      (''confidence'', PFloat (confidence a)),
      (''stage_metadata'', PDict (stage_metadata a)),
      (''status'', PStr (status a)),
      (''version'', PInt (version a)),
      (''created_at'', PStr (created_at a))]. json_dump (snd kv) \<noteq> None)"
    unfolding to_dict_def by (rule json_dump_dict_ok)
  also have "\<dots> = (json_dump (PDict (content a)) \<noteq> None
                    \<and> json_dump (PDict (stage_metadata a)) \<noteq> None)"
    using json_dump_strs_ok[of "derived_from a"] json_dump_strs_ok[of "referenced_context a"]
    by (simp del: json_dump.simps(6,7,8) not_None_eq)
  finally show ?thesis .
qed

lemma json_dump_metadata_ok: "json_dump (PDict (metadata e model ids)) \<noteq> None"
proof -
  have "(json_dump (PDict (metadata e model ids)) \<noteq> None) = (\<forall>kv\<in>set
     [(''model'', PStr model), (''tokens'', PInt 0), (''cost_usd'', PFloat 0),
      (''latency_ms'', PInt (measured_latency e)),
      (''retrieval_ids'', PList (map PStr ids))]. json_dump (snd kv) \<noteq> None)"
    unfolding metadata_def by (rule json_dump_dict_ok)
  then show ?thesis
    using json_dump_strs_ok[of ids] by (simp del: json_dump.simps(6,7,8) not_None_eq)
qed

lemma persist_ok:
  assumes "\<not> exists (artifacts st) (artifact_id a)" and "locate (artifact_id a) = InStore k"
    and "json_dump (to_dict a) = Some j"
  shows "\<exists>st'. persist e st rid sname inp a = (Inr a, st')"
  using assms by (simp add: persist_def save_artifact_def)

lemma choose_id_override: "i \<noteq> [] \<Longrightarrow> choose_id e kind rid ver (Some i) = i"
  by (simp add: choose_id_def)

lemma run_stage_Inr:
  assumes "run_stage e st sn inp rid ver (Some df) (Some i) = (Inr out, st')" and "i \<noteq> []"
  shows "artifact_id out = i \<and> version out = ver \<and> derived_from out = df
         \<and> \<not> exists (artifacts st) i"
proof (cases sn)
  case Normalize
  then show ?thesis using assms
    by (auto simp: run_stage_def normalize_def choose_id_override split: sum.splits dest!: persist_Inr)
next
  case Extract
  then show ?thesis using assms
    by (auto simp: run_stage_def extract_stage_def choose_id_override split: sum.splits dest!: persist_Inr)
next
  case Contextualize
  then show ?thesis using assms
    by (auto simp: run_stage_def contextualize_def Let_def choose_id_override split: pyval.splits dest!: persist_Inr)
next
  case Insight
  then show ?thesis using assms
    by (auto simp: run_stage_def generate_insight_def choose_id_override dest!: persist_Inr)
next
  case Validate
  then show ?thesis using assms
    by (auto simp: run_stage_def validate_def choose_id_override split: sum.splits dest!: persist_Inr)
qed

text \<open>
  What a replay that comes to its report has made: the version after the one of the
  replayed artifact, the id of that version in the family of the replayed artifact, and
  the replayed artifact as the only parent.
\<close>

lemma replay_step:
  assumes ld: "load_artifact (now e) (artifacts st) i = Inr a"
    and fam: "artifact_id a = F @ ''_v'' @ str_int (version a)"
    and v: "0 \<le> version a"
    and ok: "replay e st i sn = (Inr (ReplayComplete out), st')"
  shows "version out = version a + 1
       \<and> artifact_id out = F @ ''_v'' @ str_int (version a + 1)
       \<and> derived_from out = [artifact_id a]"
proof -
  define ni where "ni = F @ ''_v'' @ str_int (version a + 1)"
  have base: "strip_version (artifact_id a) = F"
    using strip_version_str_int[OF v, of F] fam by simp
  have ne: "ni \<noteq> []" by (simp add: ni_def)
  obtain inp where run:
    "run_stage e st sn inp (run_id_of i) (version a + 1) (Some [artifact_id a]) (Some ni)
       = (Inr out, st')"
    using ok ld base
    by (auto simp: replay_def Let_def ni_def split: if_splits list.splits sum.splits prod.splits)
  from run_stage_Inr[OF run ne] show ?thesis by (simp add: ni_def)
qed

section \<open>Properties of list_versions\<close>

lemma glob_parse_plain:
  "\<forall>c\<in>set b. c \<noteq> CHR ''*'' \<and> c \<noteq> CHR ''?'' \<and> c \<noteq> CHR ''['' \<Longrightarrow>
     glob_parse (b @ p) = map Lit b @ glob_parse p"
  by (induction b) simp_all

lemma glob_parse_ending: "glob_parse ''*.json'' = Star # map Lit ''.json''"
  by simp

lemma glob_match_lits:
  "glob_match (map Lit b @ items) s = (prefix b s \<and> glob_match items (drop (length b) s))"
proof (induction b arbitrary: s)
  case Nil
  then show ?case by simp
next
  case (Cons c b)
  then show ?case by (cases s) auto
qed

lemma glob_match_exact: "glob_match (map Lit b) s = (s = b)"
proof -
  have "glob_match (map Lit b @ []) s = (prefix b s \<and> drop (length b) s = [])"
    by (simp only: glob_match_lits glob_match.simps)
  also have "\<dots> = (s = b)"
    by (auto simp: prefix_def)
  finally show ?thesis by simp
qed

lemma glob_match_star: "glob_match (Star # map Lit e) s = suffix e s"
proof (induction s)
  case Nil
  show ?case using glob_match_exact[of e "[]"] by auto
next
  case (Cons c cs)
  show ?case using Cons glob_match_exact[of e "c # cs"] by (auto simp: suffix_Cons)
qed

lemma glob_match_prefix:
  assumes "\<forall>c\<in>set b. c \<noteq> CHR ''*'' \<and> c \<noteq> CHR ''?'' \<and> c \<noteq> CHR ''[''"
  shows "glob_match (glob_parse (b @ ''*.json'')) (file_name k) = prefix b k"
proof -
  have "glob_match (glob_parse (b @ ''*.json'')) (file_name k)
        = (prefix b (k @ ''.json'') \<and> suffix ''.json'' (drop (length b) (k @ ''.json'')))"
    by (simp only: glob_parse_plain[OF assms] glob_parse_ending glob_match_lits glob_match_star
        file_name_def)
  also have "\<dots> = prefix b k"
  proof
    assume h: "prefix b (k @ ''.json'') \<and> suffix ''.json'' (drop (length b) (k @ ''.json''))"
    then have "length ''.json'' \<le> length (drop (length b) (k @ ''.json''))"
      using suffix_length_le by blast
    then have "length b \<le> length k" by simp
    with h show "prefix b k" by (auto simp: prefix_append)
  next
    assume "prefix b k"
    then obtain m where "k = b @ m" by (auto simp: prefix_def)
    then show "prefix b (k @ ''.json'') \<and> suffix ''.json'' (drop (length b) (k @ ''.json''))"
      by (simp add: suffix_def)
  qed
  finally show ?thesis .
qed

lemma contains_Cons: "contains sub (c # s) = (prefix sub (c # s) \<or> contains sub s)"
  by (auto simp: contains_def list_ex_iff)

lemma no_double_star:
  "CHR ''*'' \<notin> set b \<Longrightarrow> \<not> contains ''**'' (b @ ''*.json'')"
proof (induction b)
  case Nil
  show ?case by (simp add: contains_def)
next
  case (Cons c b)
  then show ?case by (auto simp: contains_Cons)
qed

lemma no_reversed_range:
  assumes "\<forall>c\<in>set b. c \<noteq> CHR ''*'' \<and> c \<noteq> CHR ''?'' \<and> c \<noteq> CHR ''[''"
  shows "\<not> list_ex reversed_range (glob_parse (b @ ''*.json''))"
  by (simp only: glob_parse_plain[OF assms] glob_parse_ending) (simp add: list_ex_iff)

lemma stem_file_name: "k \<noteq> [] \<Longrightarrow> stem (file_name k) = k"
  by (simp add: stem_def file_name_def Let_def)

text \<open>
  Claim C3, as stated, fails: \<open>list_versions\<close> sorts the ids as strings, so the id of
  version 10 comes before the id of version 2. Moreover the prefix is part of a glob
  pattern: for \<open>art_00?\<close> the list holds ids that do not start with these characters.
\<close>

theorem list_versions_not_numeric:
  "list_versions ex_versions ''art_001'' = Inr [''art_001_v10'', ''art_001_v2'']
   \<and> map trailing_version [''art_001_v10'', ''art_001_v2''] = [10, 2]
   \<and> list_versions ex_versions ''art_00?'' = Inr [''art_001_v10'', ''art_001_v2'', ''art_002_v1'']"
  by code_simp

text \<open>
  Claim C3, amended. For every base name without the characters \<open>*\<close>, \<open>?\<close>, \<open>[\<close>
  and \<open>/\<close>, \<open>list_versions\<close> returns the stored ids that start with it, in ascending
  lexicographic order of the id strings. (What it lists is the stem of the file, which is
  the id unless the id is empty: the stem of \<open>.json\<close> is \<open>.json\<close>.)
\<close>

theorem list_versions_lexicographic:
  assumes "CHR ''*'' \<notin> set base_name" and "CHR ''?'' \<notin> set base_name"
    and "CHR ''['' \<notin> set base_name" and "CHR ''/'' \<notin> set base_name"
  shows "list_versions s base_name
           = Inr (sort (map (stem \<circ> file_name) (filter (prefix base_name) (map fst s))))
       \<and> ([] \<notin> set (map fst s) \<longrightarrow>
            list_versions s base_name = Inr (sort (filter (prefix base_name) (map fst s))))"
proof -
  have plain: "\<forall>c\<in>set base_name. c \<noteq> CHR ''*'' \<and> c \<noteq> CHR ''?'' \<and> c \<noteq> CHR ''[''"
    using assms by blast
  have "CHR ''*'' \<notin> set base_name" by (rule assms(1))
  then have star: "\<not> contains ''**'' (base_name @ ''*.json'')" by (rule no_double_star)
  have slash: "CHR ''/'' \<notin> set (base_name @ ''*.json'')" using assms by auto
  have "filter (glob_match (glob_parse (base_name @ ''*.json''))) (map (file_name \<circ> fst) s)
        = map file_name (filter (prefix base_name) (map fst s))"
    by (induction s) (simp_all add: glob_match_prefix[OF plain])
  then have 1: "list_versions s base_name
           = Inr (sort (map (stem \<circ> file_name) (filter (prefix base_name) (map fst s))))"
    using star slash no_reversed_range[OF plain] by (simp add: list_versions_def Let_def)
  have "map (stem \<circ> file_name) ks = ks" if "[] \<notin> set ks" for ks
    using that by (induction ks) (auto simp: stem_file_name)
  then have "[] \<notin> set (map fst s) \<Longrightarrow>
      map (stem \<circ> file_name) (filter (prefix base_name) (map fst s))
        = filter (prefix base_name) (map fst s)"
    by simp
  with 1 show ?thesis by simp
qed

theorem list_versions_lexicographic_witness:
  "CHR ''*'' \<notin> set ''art_001'' \<and> CHR ''?'' \<notin> set ''art_001''
   \<and> CHR ''['' \<notin> set ''art_001'' \<and> CHR ''/'' \<notin> set ''art_001''
   \<and> [] \<notin> set (map fst ex_versions)
   \<and> list_versions ex_versions ''art_001''
       = Inr (sort (filter (prefix ''art_001'') (map fst ex_versions)))
   \<and> sort (filter (prefix ''art_001'') (map fst ex_versions)) = [''art_001_v10'', ''art_001_v2'']"
proof -
  have h: "CHR ''*'' \<notin> set ''art_001''" "CHR ''?'' \<notin> set ''art_001''"
    "CHR ''['' \<notin> set ''art_001''" "CHR ''/'' \<notin> set ''art_001''"
    by simp_all
  have e: "[] \<notin> set (map fst ex_versions)" by (simp add: ex_versions_def)
  have v: "sort (filter (prefix ''art_001'') (map fst ex_versions)) = [''art_001_v10'', ''art_001_v2'']"
    by code_simp
  from list_versions_lexicographic [OF h, of ex_versions] e
  have l: "list_versions ex_versions ''art_001''
       = Inr (sort (filter (prefix ''art_001'') (map fst ex_versions)))"
    by blast
  show ?thesis using h e l v by (intro conjI)
qed

section \<open>Properties of replay\<close>

lemma load_file_of:
  assumes "locate i = InStore k" and "map_of s k = Some (file_of a)" and "json_native (to_dict a)"
  shows "load_artifact t s i = Inr a"
proof -
  obtain j where j: "json_dump (to_dict a) = Some j" "json_load j = to_dict a"
    using assms(3) json_native_roundtrip by blast
  then show ?thesis
    using assms(1,2) by (simp add: load_artifact_def file_of_def from_dict_to_dict)
qed

lemma load_ex_transcript:
  "load_artifact t (artifacts ex_state) ''transcript_20240101_r1_v1'' = Inr ex_transcript"
proof (rule load_file_of)
  show "locate ''transcript_20240101_r1_v1'' = InStore ''transcript_20240101_r1_v1''"
    by code_simp
  show "map_of (artifacts ex_state) ''transcript_20240101_r1_v1'' = Some (file_of ex_transcript)"
    by (simp add: ex_state_def)
  show "json_native (to_dict ex_transcript)" by code_simp
qed

lemma load_ex_extraction:
  "load_artifact t (artifacts ex_state) ''extraction_20240101_r1_v1'' = Inr ex_extraction"
proof (rule load_file_of)
  show "locate ''extraction_20240101_r1_v1'' = InStore ''extraction_20240101_r1_v1''"
    by code_simp
  show "map_of (artifacts ex_state) ''extraction_20240101_r1_v1'' = Some (file_of ex_extraction)"
    by (simp add: ex_state_def)
  show "json_native (to_dict ex_extraction)" by code_simp
qed

text \<open>
  Claim C4, as stated, fails. Replaying validate on the transcript of the example, whose
  \<open>derived_from\<close> is empty, raises nothing: \<open>replay\<close> prints two lines and returns,
  as it returns after a replay that was made. No error reaches the caller.
\<close>

theorem replay_no_parent_returns:
  "replay ex_env ex_state ''transcript_20240101_r1_v1'' Validate
     = (Inr (ErrorPrinted
          [''Error: Artifact transcript_20240101_r1_v1 has no parent (derived_from is empty)'',
           ''Cannot replay validate stage without input artifact'']), ex_state)
   \<and> \<not> isl (fst (replay ex_env ex_state ''transcript_20240101_r1_v1'' Validate))"
  by code_simp

text \<open>
  Claim C4, amended. For a stage other than normalize, replaying a stored artifact whose
  \<open>derived_from\<close> is empty prints an error message of two lines, which name the
  artifact and the stage, and returns without raising an exception; no stage runs, and
  the state (artifact store and telemetry) is left as it was.
\<close>

theorem replay_missing_parent:
  "sn \<noteq> Normalize \<Longrightarrow> load_artifact (now e) (artifacts st) i = Inr a \<Longrightarrow> derived_from a = []
   \<Longrightarrow> replay e st i sn
       = (Inr (ErrorPrinted
            [''Error: Artifact '' @ i @ '' has no parent (derived_from is empty)'',
             ''Cannot replay '' @ stage_str sn @ '' stage without input artifact'']), st)"
  by (simp add: replay_def Let_def)

theorem replay_missing_parent_witness:
  "Extract \<noteq> Normalize
   \<and> load_artifact (now ex_env) (artifacts ex_state) ''transcript_20240101_r1_v1'' = Inr ex_transcript
   \<and> derived_from ex_transcript = []
   \<and> replay ex_env ex_state ''transcript_20240101_r1_v1'' Extract
       = (Inr (ErrorPrinted
            [''Error: Artifact transcript_20240101_r1_v1 has no parent (derived_from is empty)'',
             ''Cannot replay extract stage without input artifact'']), ex_state)"
  using replay_missing_parent [of Extract ex_env ex_state "''transcript_20240101_r1_v1''" ex_transcript]
  by (simp add: load_ex_transcript) (simp add: ex_transcript_def)

section \<open>Properties of replay: versions\<close>

text \<open>
  Claim C2. The code diverges from the claim. Replaying extract on
  \<open>extraction_20240101_r1_v1\<close> gives version 2, with the id and the parent that the
  claim states. Replaying extract on that result does not give version 3: \<open>replay\<close>
  takes the input of the stage from \<open>derived_from[0]\<close> of the artifact it replays,
  which for the result of a replay is the artifact replayed before, here the first
  extraction and not a transcript. \<open>extract\<close> raises \<open>KeyError\<close> on its content,
  which has no \<open>text\<close>, and the exception ends the second replay.
\<close>

theorem replay_extract_twice_fails:
  "(case fst replay_once of
      Inr (ReplayComplete out) \<Rightarrow>
        artifact_id out = ''extraction_20240101_r1_v2'' \<and> version out = 2
        \<and> derived_from out = [''extraction_20240101_r1_v1'']
    | _ \<Rightarrow> False)
   \<and> fst replay_twice = Inl (KeyError ''text'')"
  unfolding replay_twice_def replay_once_def by code_simp

section \<open>Properties of the confidences\<close>

lemma floor_value:
  "max (fsub (fsub (fl (7 / 10)) (fl (1 / 20))) (fl (1 / 20))) (fl (3 / 5)) = fl (3 / 5)"
  by code_simp

lemma floor_below: "\<not> fl (17 / 20) \<le> fl (3 / 5)"
  by code_simp

text \<open>
  Claim C7. When validate is applied to an insight artifact with confidence 0.70, a
  \<open>low_confidence\<close> risk flag and no referenced context, the output has confidence and
  \<open>validation_score\<close> 0.60, status \<open>review_required\<close> and \<open>hallucination_risk\<close>
  \<open>medium\<close>. The numbers are the doubles of these decimals. This holds of every
  artifact that validate returns; and validate does return one when its output can be
  saved: the id of the output names a file of the artifacts directory that does not exist
  yet, and JSON can encode the recommendations and the risk flags, which validate
  copies from its input.
\<close>

theorem validate_floor:
  assumes "confidence a = fl (70 / 100)"
    and "dict_get (content a) ''risk_flags'' (PList []) = PList flags"
    and "PStr ''low_confidence'' \<in> set flags"
    and "referenced_context a = []"
  shows "(validate e st a rid ver dfo aio = (Inr out, st') \<longrightarrow>
           confidence out = fl (60 / 100)
           \<and> map_of (content out) ''validation_score'' = Some (PFloat (fl (60 / 100)))
           \<and> status out = ''review_required''
           \<and> map_of (content out) ''hallucination_risk'' = Some (PStr ''medium''))
       \<and> (\<not> exists (artifacts st) (choose_id e ''validated'' rid ver aio)
          \<and> locate (choose_id e ''validated'' rid ver aio) = InStore k
          \<and> json_dump (PList flags) \<noteq> None
          \<and> json_dump (dict_get (content a) ''recommendations'' (PList [])) \<noteq> None \<longrightarrow>
          (\<exists>out st'. validate e st a rid ver dfo aio = (Inr out, st')
           \<and> confidence out = fl (60 / 100)
           \<and> map_of (content out) ''validation_score'' = Some (PFloat (fl (60 / 100)))
           \<and> status out = ''review_required''
           \<and> map_of (content out) ''hallucination_risk'' = Some (PStr ''medium'')))"
proof -
  define v where "v =
     \<lparr>artifact_id = choose_id e ''validated'' rid ver aio,
      atype = ''validated_insight'',
      content =
        [(''recommendations'', dict_get (content a) ''recommendations'' (PList [])),
         (''risk_flags'', PList flags),
         (''validation_score'', PFloat (fl (3 / 5))),
         (''hallucination_risk'', PStr ''medium'')],
      derived_from = (case dfo of Some ps \<Rightarrow> ps | None \<Rightarrow> [artifact_id a]),
      referenced_context = [],
      confidence = fl (3 / 5),
      stage_metadata = metadata e ''deterministic_validation'' [],
      status = ''review_required'',
      version = ver,
      created_at = now e\<rparr>"
  have score: "compute_validation_score (confidence a) (PList flags) [] = Inr (fl (3 / 5))"
    using assms(1,3) by (simp add: compute_validation_score_def floor_value)
  have val: "validate e st a rid ver dfo aio = persist e st rid ''validation'' (artifact_id a) v"
    using assms(2,4)
    by (simp add: validate_def score determine_status_def floor_below
        assess_hallucination_risk_def v_def)
  have fields: "confidence v = fl (60 / 100)
      \<and> map_of (content v) ''validation_score'' = Some (PFloat (fl (60 / 100)))
      \<and> status v = ''review_required''
      \<and> map_of (content v) ''hallucination_risk'' = Some (PStr ''medium'')"
    by (simp add: v_def)
  have 1: "validate e st a rid ver dfo aio = (Inr out, st') \<longrightarrow>
           confidence out = fl (60 / 100)
           \<and> map_of (content out) ''validation_score'' = Some (PFloat (fl (60 / 100)))
           \<and> status out = ''review_required''
           \<and> map_of (content out) ''hallucination_risk'' = Some (PStr ''medium'')"
    using persist_Inr[of e st rid "''validation''" "artifact_id a" v out st'] fields
    unfolding val by blast
  have 2: "\<exists>out st'. validate e st a rid ver dfo aio = (Inr out, st')
           \<and> confidence out = fl (60 / 100)
           \<and> map_of (content out) ''validation_score'' = Some (PFloat (fl (60 / 100)))
           \<and> status out = ''review_required''
           \<and> map_of (content out) ''hallucination_risk'' = Some (PStr ''medium'')"
    if fresh: "\<not> exists (artifacts st) (choose_id e ''validated'' rid ver aio)"
      and loc: "locate (choose_id e ''validated'' rid ver aio) = InStore k"
      and fl: "json_dump (PList flags) \<noteq> None"
      and rc: "json_dump (dict_get (content a) ''recommendations'' (PList [])) \<noteq> None"
  proof -
    have "(json_dump (PDict (content v)) \<noteq> None) = (\<forall>kv\<in>set (content v). json_dump (snd kv) \<noteq> None)"
      by (rule json_dump_dict_ok)
    then have "json_dump (PDict (content v)) \<noteq> None"
      using fl rc by (simp add: v_def del: json_dump.simps(6,7,8) not_None_eq)
    moreover have "stage_metadata v = metadata e ''deterministic_validation'' []"
      by (simp add: v_def)
    then have "json_dump (PDict (stage_metadata v)) \<noteq> None"
      using json_dump_metadata_ok[of e "''deterministic_validation''" "[]"] by (simp only: simp_thms)
    ultimately have "json_dump (to_dict v) \<noteq> None"
      by (simp only: json_dump_to_dict_ok simp_thms)
    then obtain j where j: "json_dump (to_dict v) = Some j" by blast
    have "\<not> exists (artifacts st) (artifact_id v)" "locate (artifact_id v) = InStore k"
      using fresh loc by (simp_all add: v_def)
    from persist_ok[OF this j] obtain st2 where
      "persist e st rid ''validation'' (artifact_id a) v = (Inr v, st2)" by blast
    with fields show ?thesis unfolding val by blast
  qed
  from 1 2 show ?thesis by blast
qed

theorem validate_floor_witness:
  "confidence ex_insight = fl (70 / 100)
   \<and> dict_get (content ex_insight) ''risk_flags'' (PList []) = PList [PStr ''low_confidence'']
   \<and> referenced_context ex_insight = []
   \<and> \<not> exists (artifacts ex_state) (choose_id ex_env ''validated'' ''r1'' 1 None)
   \<and> locate (choose_id ex_env ''validated'' ''r1'' 1 None) = InStore ''validated_20240102_r1_v1''
   \<and> json_dump (PList [PStr ''low_confidence'']) \<noteq> None
   \<and> json_dump (dict_get (content ex_insight) ''recommendations'' (PList [])) \<noteq> None
   \<and> (\<exists>out st'. validate ex_env ex_state ex_insight ''r1'' 1 None None = (Inr out, st')
           \<and> confidence out = fl (60 / 100) \<and> status out = ''review_required'')"
proof -
  have 1: "confidence ex_insight = fl (70 / 100)" by (simp add: ex_insight_def)
  have 2: "dict_get (content ex_insight) ''risk_flags'' (PList []) = PList [PStr ''low_confidence'']"
    by (simp add: ex_insight_def dict_get_def)
  have 3: "PStr ''low_confidence'' \<in> set [PStr ''low_confidence'']" by simp
  have 4: "referenced_context ex_insight = []" by (simp add: ex_insight_def)
  have 5: "\<not> exists (artifacts ex_state) (choose_id ex_env ''validated'' ''r1'' 1 None)"
    by code_simp
  have 6: "locate (choose_id ex_env ''validated'' ''r1'' 1 None) = InStore ''validated_20240102_r1_v1''"
    by code_simp
  have 7: "json_dump (PList [PStr ''low_confidence'']) \<noteq> None" by simp
  have 8: "json_dump (dict_get (content ex_insight) ''recommendations'' (PList [])) \<noteq> None"
    by (simp add: ex_insight_def dict_get_def)
  from validate_floor[OF 1 2 3 4, of ex_env ex_state "''r1''" 1 None None _ _
      "''validated_20240102_r1_v1''"] 5 6 7 8
  have "\<exists>out st'. validate ex_env ex_state ex_insight ''r1'' 1 None None = (Inr out, st')
           \<and> confidence out = fl (60 / 100) \<and> status out = ''review_required''"
    by blast
  with 1 2 4 5 6 7 8 show ?thesis by (intro conjI)
qed


lemma context_confidence_bounds:
  assumes "0 \<le> b"
  shows "0 \<le> context_compute_confidence b k \<and> context_compute_confidence b k \<le> 1"
proof -
  have "0 \<le> fmul (float_of_int (int k)) (fl (2 / 100))"
    unfolding fmul_def float_of_int_def
    by (intro fl_nonneg mult_nonneg_nonneg) simp_all
  then have "0 \<le> fadd b (fmul (float_of_int (int k)) (fl (2 / 100)))"
    unfolding fadd_def using assms by (intro fl_nonneg) simp
  moreover have "0 \<le> fl (95 / 100)" by (intro fl_nonneg) simp
  moreover have "fl (95 / 100) \<le> 1" by (intro fl_le_one) simp
  ultimately show ?thesis
    unfolding context_compute_confidence_def by (simp add: min_le_iff_disj)
qed

lemma insight_confidence_bounds:
  assumes "b \<le> 1"
  shows "0 \<le> insight_compute_confidence b \<and> insight_compute_confidence b \<le> 1"
proof -
  have c: "0 \<le> fl (3 / 100)" by (intro fl_nonneg) simp
  have "fsub b (fl (3 / 100)) \<le> 1"
    unfolding fsub_def using assms c by (intro fl_le_one) simp
  moreover have "0 \<le> fl (70 / 100)" by (intro fl_nonneg) simp
  moreover have "fl (70 / 100) \<le> 1" by (intro fl_le_one) simp
  ultimately show ?thesis
    unfolding insight_compute_confidence_def by (simp add: le_max_iff_disj)
qed

lemma validation_score_bounds:
  assumes "b \<le> 1" and "compute_validation_score b flags ctx = Inr sc"
  shows "0 \<le> sc \<and> sc \<le> 1"
proof -
  have c: "0 \<le> fl (5 / 100)" by (intro fl_nonneg) simp
  have s1: "fsub b (fl (5 / 100)) \<le> 1"
    unfolding fsub_def using assms(1) c by (intro fl_le_one) simp
  have s2: "fsub b (fl (5 / 100)) \<le> 1 \<Longrightarrow> fsub (fsub b (fl (5 / 100))) (fl (5 / 100)) \<le> 1"
    unfolding fsub_def using c by (intro fl_le_one) simp
  have s3: "fsub (fsub b (fl (5 / 100))) (fl (5 / 100)) \<le> 1" using s1 s2 by simp
  have lo: "0 \<le> fl (60 / 100)" by (intro fl_nonneg) simp
  have hi: "fl (60 / 100) \<le> 1" by (intro fl_le_one) simp
  obtain flagged where f: "str_in ''low_confidence'' flags = Inr flagged"
    using assms(2) by (auto simp: compute_validation_score_def split: sum.splits)
  have sc: "sc = max (if ctx = [] then fsub (if flagged then fsub b (fl (5 / 100)) else b) (fl (5 / 100))
                      else (if flagged then fsub b (fl (5 / 100)) else b)) (fl (60 / 100))"
    using assms(2) f by (simp add: compute_validation_score_def Let_def)
  have s4: "fsub b (fl (5 / 100)) \<le> 1" by (rule s1)
  show ?thesis
    unfolding sc using assms(1) s1 s3 lo hi by (auto simp: le_max_iff_disj)
qed

text \<open>
  Claim C6. When the input artifact of a stage has a confidence between 0 and 1, so has
  the artifact that the stage returns, for each of the five stages; normalize, which
  the pipeline calls on raw text, returns confidence 0.95 whatever its input.
\<close>

theorem stage_confidence_in_unit_interval:
  assumes "0 \<le> confidence a" and "confidence a \<le> 1"
  shows "(run_stage e st sn a rid ver dfo aio = (Inr out, st') \<longrightarrow>
            0 \<le> confidence out \<and> confidence out \<le> 1)
       \<and> (normalize e st raw_text rid ver dfo aio = (Inr out, st') \<longrightarrow>
            0 \<le> confidence out \<and> confidence out \<le> 1)"
proof -
  have lo: "\<And>x. 0 \<le> x \<Longrightarrow> 0 \<le> fl x" by (rule fl_nonneg)
  have n95: "0 \<le> fl (95 / 100) \<and> fl (95 / 100) \<le> 1"
    by (intro conjI fl_nonneg fl_le_one) simp_all
  have n85: "0 \<le> fl (85 / 100) \<and> fl (85 / 100) \<le> 1"
    by (intro conjI fl_nonneg fl_le_one) simp_all
  have norm: "normalize e st t rid ver dfo aio = (Inr out, st') \<Longrightarrow>
      0 \<le> confidence out \<and> confidence out \<le> 1" for t
    using n95 by (auto simp: normalize_def dest!: persist_Inr)
  have "run_stage e st sn a rid ver dfo aio = (Inr out, st') \<Longrightarrow>
      0 \<le> confidence out \<and> confidence out \<le> 1"
  proof (cases sn)
    case Normalize
    assume "run_stage e st sn a rid ver dfo aio = (Inr out, st')"
    with Normalize show ?thesis
      using norm by (auto simp: run_stage_def split: sum.splits)
  next
    case Extract
    assume "run_stage e st sn a rid ver dfo aio = (Inr out, st')"
    with Extract show ?thesis
      using n85 by (auto simp: run_stage_def extract_stage_def split: sum.splits dest!: persist_Inr)
  next
    case Contextualize
    assume "run_stage e st sn a rid ver dfo aio = (Inr out, st')"
    with Contextualize show ?thesis
      using context_confidence_bounds[OF assms(1)]
      by (auto simp: run_stage_def contextualize_def Let_def split: pyval.splits dest!: persist_Inr)
  next
    case Insight
    assume "run_stage e st sn a rid ver dfo aio = (Inr out, st')"
    with Insight show ?thesis
      using insight_confidence_bounds[OF assms(2)]
      by (auto simp: run_stage_def generate_insight_def dest!: persist_Inr)
  next
    case Validate
    assume "run_stage e st sn a rid ver dfo aio = (Inr out, st')"
    with Validate show ?thesis
      using validation_score_bounds[OF assms(2)]
      by (auto simp: run_stage_def validate_def split: sum.splits dest!: persist_Inr)
  qed
  with norm show ?thesis by blast
qed


theorem stage_confidence_in_unit_interval_witness:
  "0 \<le> confidence ex_extraction \<and> confidence ex_extraction \<le> 1
   \<and> (\<exists>out st'. run_stage ex_env ex_state Contextualize ex_extraction ''r1'' 1 None None
                    = (Inr out, st')
        \<and> 0 \<le> confidence out \<and> confidence out \<le> 1)"
proof -
  have lo: "0 \<le> confidence ex_extraction" by code_simp
  have hi: "confidence ex_extraction \<le> 1" by code_simp
  have "isl (fst (run_stage ex_env ex_state Contextualize ex_extraction ''r1'' 1 None None)) = False"
    by code_simp
  then obtain out st' where
    r: "run_stage ex_env ex_state Contextualize ex_extraction ''r1'' 1 None None = (Inr out, st')"
    by (cases "run_stage ex_env ex_state Contextualize ex_extraction ''r1'' 1 None None";
        cases "fst (run_stage ex_env ex_state Contextualize ex_extraction ''r1'' 1 None None)") auto
  from stage_confidence_in_unit_interval[OF lo hi, of ex_env ex_state Contextualize "''r1''" 1 None None out st'] r
  have "0 \<le> confidence out \<and> confidence out \<le> 1" by blast
  with lo hi r show ?thesis by blast
qed

text \<open>
  Claim C8, as stated, fails. For the extraction of the example, whose confidence is the
  double 0.85, and three retrieved contexts, contextualize returns the confidence
  0.9099999999999999: the double next below the double 0.91, and not the number 0.91.
\<close>

theorem contextualize_three_contexts:
  "(case fst (contextualize ex_env ex_state ex_extraction ''r1'' 1 None None) of
      Inl err \<Rightarrow> False
    | Inr out \<Rightarrow>
        confidence ex_extraction = fl (85 / 100)
        \<and> length (referenced_context out) = 3
        \<and> confidence out \<noteq> fl (91 / 100)
        \<and> confidence out \<noteq> 91 / 100
        \<and> confidence out = 4098275660907151 / 4503599627370496)"
  by code_simp

text \<open>
  Claim C8, amended. For an input artifact with a confidence \<open>b\<close> between 0 and 1
  and \<open>k\<close> retrieved contexts, the artifact that contextualize returns has the
  confidence \<open>min(b + k * 0.02, 0.95)\<close> as double arithmetic computes it, which
  differs from the exact number \<open>min(b + 0.02 k, 0.95)\<close> by \<open>2 ^ -50\<close> at most.
\<close>

theorem contextualize_confidence:
  assumes "contextualize e st a rid ver dfo aio = (Inr out, st')"
    and "0 \<le> confidence a" and "confidence a \<le> 1"
  shows "confidence out
           = min (fadd (confidence a)
                    (fmul (float_of_int (int (length (referenced_context out)))) (fl (2 / 100))))
                 (fl (95 / 100))
       \<and> \<bar>confidence out
            - min (confidence a + 2 / 100 * of_nat (length (referenced_context out))) (95 / 100)\<bar>
           \<le> 1 / 2 ^ 50"
proof -
  have "confidence out
          = context_compute_confidence (confidence a) (length (referenced_context out))"
    using assms(1)
    by (auto simp: contextualize_def Let_def split: pyval.splits dest!: persist_Inr)
  then show ?thesis
    using context_confidence_error[OF assms(2,3), of "length (referenced_context out)"]
    by (simp add: context_compute_confidence_def)
qed

theorem contextualize_confidence_witness:
  "0 \<le> confidence ex_extraction \<and> confidence ex_extraction \<le> 1
   \<and> (\<exists>out st'. contextualize ex_env ex_state ex_extraction ''r1'' 1 None None = (Inr out, st')
        \<and> \<bar>confidence out
             - min (confidence ex_extraction + 2 / 100 * of_nat (length (referenced_context out)))
                 (95 / 100)\<bar> \<le> 1 / 2 ^ 50)"
proof -
  let ?r = "contextualize ex_env ex_state ex_extraction ''r1'' 1 None None"
  have lo: "0 \<le> confidence ex_extraction" by code_simp
  have hi: "confidence ex_extraction \<le> 1" by code_simp
  have "isl (fst ?r) = False" by code_simp
  then obtain out st' where r: "?r = (Inr out, st')"
    by (cases ?r; cases "fst ?r") auto
  from contextualize_confidence[OF r lo hi] lo hi r show ?thesis by blast
qed

section \<open>Properties of the normalize stage\<close>

text \<open>The pattern of the stage finds the speaker names as described above.\<close>

lemma takeWhile_dropWhile_stop:
  assumes "list_all P n" and "\<not> P x"
  shows "takeWhile P (n @ x # r) = n \<and> dropWhile P (n @ x # r) = x # r"
  using assms by (induction n) simp_all

lemma colon_not_name: "\<not> (is_alpha (CHR '':'') \<or> is_space (CHR '':''))"
  by (simp add: is_alpha_def is_space_def)

lemma colon_stop:
  assumes "list_all (\<lambda>x. is_alpha x \<or> is_space x) n"
  shows "takeWhile (\<lambda>c. c \<noteq> CHR '':'') (n @ CHR '':'' # r) = n"
    and "dropWhile (\<lambda>c. c \<noteq> CHR '':'') (n @ CHR '':'' # r) = CHR '':'' # r"
proof -
  have "list_all (\<lambda>c. c \<noteq> CHR '':'') n"
    using assms colon_not_name by (auto simp: list_all_iff)
  from takeWhile_dropWhile_stop[OF this, of "CHR '':''" r]
  show "takeWhile (\<lambda>c. c \<noteq> CHR '':'') (n @ CHR '':'' # r) = n"
    and "dropWhile (\<lambda>c. c \<noteq> CHR '':'') (n @ CHR '':'' # r) = CHR '':'' # r"
    by simp_all
qed

lemma name_prefix_Some:
  assumes "is_alpha c" and "nm \<noteq> []" and "list_all (\<lambda>x. is_alpha x \<or> is_space x) nm"
  shows "name_prefix (c # nm @ CHR '':'' # r) = Some (strip (c # nm))"
proof -
  have a: "list_all (\<lambda>x. is_alpha x \<or> is_space x) (c # nm)" using assms by simp
  have t: "takeWhile (\<lambda>c. c \<noteq> CHR '':'') (c # nm @ CHR '':'' # r) = c # nm"
    using colon_stop(1)[OF a, of r] by simp
  have l: "2 \<le> length (c # nm)" using assms(2) by (cases nm) simp_all
  show ?thesis
    unfolding name_prefix_def Let_def t using a l assms(1) by simp
qed

lemma dialogue_of_colon:
  assumes "is_alpha c" and "list_all (\<lambda>x. is_alpha x \<or> is_space x) nm"
  shows "dialogue_of (c # nm @ CHR '':'' # r) = dropWhile is_space r"
proof -
  have a: "list_all (\<lambda>x. is_alpha x \<or> is_space x) (c # nm)" using assms by simp
  have t: "dropWhile (\<lambda>c. c \<noteq> CHR '':'') (c # nm @ CHR '':'' # r) = CHR '':'' # r"
    using colon_stop(2)[OF a, of r] by simp
  show ?thesis unfolding dialogue_of_def t by simp
qed

lemma match_speaker_Some:
  assumes "is_alpha c" and "nm \<noteq> []" and "list_all (\<lambda>x. is_alpha x \<or> is_space x) nm"
  shows "match_speaker (c # nm @ CHR '':'' # r) = Some (strip (c # nm), dropWhile is_space r)"
proof -
  from takeWhile_dropWhile_stop[OF assms(3) colon_not_name, of r]
  have t: "takeWhile (\<lambda>x. is_alpha x \<or> is_space x) (nm @ CHR '':'' # r) = nm"
    "dropWhile (\<lambda>x. is_alpha x \<or> is_space x) (nm @ CHR '':'' # r) = CHR '':'' # r"
    by simp_all
  show ?thesis
    unfolding match_speaker_def list.case Let_def t using assms(1,2) by simp
qed

lemma split_at_colon:
  assumes "CHR '':'' \<in> set line"
  shows "\<exists>r. line = takeWhile (\<lambda>c. c \<noteq> CHR '':'') line @ CHR '':'' # r"
proof -
  let ?Q = "\<lambda>c. c \<noteq> CHR '':''"
  have "dropWhile ?Q line \<noteq> []" using assms by (simp add: dropWhile_eq_Nil_conv)
  then obtain x r where xr: "dropWhile ?Q line = x # r" by (cases "dropWhile ?Q line") auto
  then have "\<not> ?Q x" using hd_dropWhile[of ?Q line] by (metis list.sel(1) list.simps(3))
  then have "x = CHR '':''" by simp
  with xr takeWhile_dropWhile_id[of ?Q line] show ?thesis by metis
qed

lemma name_prefix_shape:
  assumes "name_prefix line = Some n"
  shows "\<exists>c nm r. line = c # nm @ CHR '':'' # r \<and> is_alpha c \<and> nm \<noteq> []
           \<and> list_all (\<lambda>x. is_alpha x \<or> is_space x) nm"
proof -
  let ?Q = "\<lambda>c. c \<noteq> CHR '':''"
  define t where "t = takeWhile ?Q line"
  have h: "CHR '':'' \<in> set line" "2 \<le> length t" "is_alpha (hd t)"
    "list_all (\<lambda>x. is_alpha x \<or> is_space x) t"
    using assms unfolding name_prefix_def Let_def t_def by (simp_all split: if_splits)
  obtain c nm where t: "t = c # nm" using h(2) by (cases t) simp_all
  have nm: "nm \<noteq> []" using h(2) t by auto
  obtain r where "line = t @ CHR '':'' # r" using split_at_colon[OF h(1)] t_def by blast
  then have "line = c # nm @ CHR '':'' # r" using t by simp
  with h(3,4) t nm show ?thesis by auto
qed

lemma match_speaker_shape:
  assumes "match_speaker line = Some x"
  shows "\<exists>c nm r. line = c # nm @ CHR '':'' # r \<and> is_alpha c \<and> nm \<noteq> []
           \<and> list_all (\<lambda>x. is_alpha x \<or> is_space x) nm"
proof -
  let ?P = "\<lambda>x. is_alpha x \<or> is_space x"
  obtain c cs where l: "line = c # cs"
    using assms by (cases line) (simp_all add: match_speaker_def)
  define nm where "nm = takeWhile ?P cs"
  define rest where "rest = dropWhile ?P cs"
  have h: "is_alpha c" "nm \<noteq> []" "take 1 rest = '':''"
    using assms unfolding match_speaker_def l list.case Let_def nm_def rest_def
    by (simp_all split: if_splits)
  obtain r where r: "rest = CHR '':'' # r" using h(3) by (cases rest) auto
  have "cs = nm @ rest" by (simp add: nm_def rest_def)
  then have "line = c # nm @ CHR '':'' # r" using l r by simp
  moreover have "list_all ?P nm"
    unfolding nm_def list_all_iff using set_takeWhileD by fast
  ultimately show ?thesis using h(1,2) by blast
qed

lemma match_speaker_spec:
  "match_speaker line =
     (case name_prefix line of None \<Rightarrow> None | Some n \<Rightarrow> Some (n, dialogue_of line))"
proof (cases "name_prefix line")
  case None
  have "match_speaker line = None"
  proof (rule ccontr)
    assume "match_speaker line \<noteq> None"
    then obtain x where "match_speaker line = Some x" by blast
    from match_speaker_shape[OF this] obtain c nm r where
      "line = c # nm @ CHR '':'' # r" "is_alpha c" "nm \<noteq> []"
      "list_all (\<lambda>x. is_alpha x \<or> is_space x) nm" by blast
    then show False using name_prefix_Some[of c nm r] None by simp
  qed
  with None show ?thesis by simp
next
  case (Some n)
  from name_prefix_shape[OF Some] obtain c nm r where s:
    "line = c # nm @ CHR '':'' # r" "is_alpha c" "nm \<noteq> []"
    "list_all (\<lambda>x. is_alpha x \<or> is_space x) nm" by blast
  have "n = strip (c # nm)" using name_prefix_Some[OF s(2,3,4), of r] Some s(1) by simp
  then show ?thesis
    using Some match_speaker_Some[OF s(2,3,4), of r] dialogue_of_colon[OF s(2,4), of r] s(1)
    by simp
qed

lemma line_names_match: "line_names lines = map fst (List.map_filter match_speaker lines)"
  by (induction lines)
    (auto simp: line_names_def List.map_filter_def match_speaker_spec split: option.splits)

lemma relabel_match:
  "relabel order line =
     (case match_speaker line of
        None \<Rightarrow> line
      | Some (speaker_name, dialogue) \<Rightarrow>
          ''Speaker '' @ str_nat (index_of order speaker_name + 1) @ '': '' @ dialogue)"
  by (simp add: relabel_def match_speaker_spec split: option.splits)

lemma relabel3_match:
  "relabel3 A B C line =
     (case match_speaker line of
        None \<Rightarrow> line
      | Some (speaker_name, dialogue) \<Rightarrow> label3 A B C speaker_name @ '': '' @ dialogue)"
  by (simp add: relabel3_def match_speaker_spec split: option.splits)

lemma index_of_append_in: "x \<in> set xs \<Longrightarrow> index_of (xs @ ys) x = index_of xs x"
  by (induction xs) auto

lemma index_of_append_new: "x \<notin> set xs \<Longrightarrow> index_of (xs @ x # ys) x = length xs"
  by (induction xs) auto

lemma line_names_Cons:
  "line_names (l # ls) =
     (case match_speaker l of None \<Rightarrow> line_names ls | Some (nm, d) \<Rightarrow> nm # line_names ls)"
  by (simp add: line_names_match List.map_filter_def split: option.splits)

lemma standardize_lines_relabel:
  assumes "n = length seen"
    and "\<And>x. map_of m x = (if x \<in> set seen
                             then Some (''Speaker '' @ str_nat (index_of seen x + 1)) else None)"
  shows "standardize_lines m n ls = map (relabel (seen @ new_names seen (line_names ls))) ls"
  using assms
proof (induction ls arbitrary: m n seen)
  case Nil
  then show ?case by simp
next
  case (Cons l ls)
  show ?case
  proof (cases "match_speaker l")
    case None
    then show ?thesis
      using Cons.IH[OF Cons.prems] by (simp add: relabel_match line_names_Cons)
  next
    case (Some nd)
    obtain nm d where nd: "nd = (nm, d)" by (cases nd)
    show ?thesis
    proof (cases "nm \<in> set seen")
      case True
      have "standardize_lines m n ls = map (relabel (seen @ new_names seen (line_names ls))) ls"
        by (rule Cons.IH[OF Cons.prems])
      then show ?thesis
        using Some nd True Cons.prems(2)[of nm]
        by (simp add: relabel_match line_names_Cons index_of_append_in)
    next
      case False
      let ?lab = "''Speaker '' @ str_nat (n + 1)"
      have a: "n + 1 = length (seen @ [nm])" using Cons.prems(1) by simp
      have b: "map_of ((nm, ?lab) # m) x =
                 (if x \<in> set (seen @ [nm])
                  then Some (''Speaker '' @ str_nat (index_of (seen @ [nm]) x + 1)) else None)" for x
        using Cons.prems False
        by (auto simp: index_of_append_in index_of_append_new[of _ _ "[]", simplified])
      have ih: "standardize_lines ((nm, ?lab) # m) (n + 1) ls
                  = map (relabel ((seen @ [nm]) @ new_names (seen @ [nm]) (line_names ls))) ls"
        by (rule Cons.IH[OF a b])
      show ?thesis
        using Some nd False Cons.prems ih
        by (simp add: relabel_match line_names_Cons index_of_append_new Let_def)
    qed
  qed
qed

lemma standardize_lines_start:
  "standardize_lines [] 0 ls = map (relabel (speaker_names ls)) ls"
  using standardize_lines_relabel[of 0 "[]" "[]" ls] by (simp add: speaker_names_def)


lemma new_names_cover: "set xs \<subseteq> set seen \<union> set (new_names seen xs)"
proof (induction xs arbitrary: seen)
  case Nil
  then show ?case by simp
next
  case (Cons x xs)
  then show ?case using Cons.IH[of seen] Cons.IH[of "seen @ [x]"] by auto
qed

lemma new_names_fresh: "set (new_names seen xs) \<inter> set seen = {}"
proof (induction xs arbitrary: seen)
  case Nil
  then show ?case by simp
next
  case (Cons x xs)
  then show ?case using Cons.IH[of seen] Cons.IH[of "seen @ [x]"] by auto
qed

lemma new_names_distinct: "distinct (new_names seen xs)"
proof (induction xs arbitrary: seen)
  case Nil
  then show ?case by simp
next
  case (Cons x xs)
  then show ?case using new_names_fresh[of "seen @ [x]" xs] by auto
qed

lemma match_in_line_names:
  "l \<in> set ls \<Longrightarrow> match_speaker l = Some (nm, d) \<Longrightarrow> nm \<in> set (line_names ls)"
  by (force simp: line_names_match List.map_filter_def)

lemma str_nat_small:
  "str_nat (Suc 0) = ''1''" "str_nat (Suc (Suc 0)) = ''2''" "str_nat (Suc (Suc (Suc 0))) = ''3''"
  by code_simp+

lemma relabel3_agrees:
  assumes "speaker_names ls = [A, B, C]" and "l \<in> set ls"
  shows "relabel [A, B, C] l = relabel3 A B C l"
proof (cases "match_speaker l")
  case None
  then show ?thesis by (simp add: relabel_match relabel3_match)
next
  case (Some nd)
  obtain nm d where nd: "nd = (nm, d)" by (cases nd)
  have "nm \<in> set (line_names ls)" using Some nd assms(2) by (simp add: match_in_line_names)
  then have "nm \<in> set (speaker_names ls)"
    using new_names_cover[of "line_names ls" "[]"] by (auto simp: speaker_names_def)
  then have "nm = A \<or> nm = B \<or> nm = C" using assms(1) by simp
  then show ?thesis
    using Some nd by (auto simp: relabel_match relabel3_match label3_def str_nat_small)
qed

text \<open>
  Claim C9, as stated, fails. A line prefix \<open>Name:\<close> gets a label only when the
  name starts with an ASCII letter and goes on, for at least one character, with ASCII
  letters or whitespace. A transcript with the three speakers \<open>A\<close>, \<open>B\<close> and
  \<open>C\<close>, and one with \<open>Dr. Who\<close>, \<open>Jean-Luc\<close> and \<open>Agent 7\<close>, are stored as they
  are, without any label.
\<close>

theorem normalize_names_unlabelled:
  "normalize_text ex_letters = ex_letters \<and> normalize_text ex_titles = ex_titles"
  by code_simp

text \<open>
  Claim C9, amended. When the lines of the cleaned input that show a speaker name
  (a line that starts with an ASCII letter followed, up to its first colon, by one or
  more ASCII letters or whitespace characters; the name is that prefix without the
  whitespace around it) name exactly three distinct speakers, \<open>A\<close>, \<open>B\<close>, \<open>C\<close> in the
  order of their first appearance, the text that normalize stores is the cleaned text
  with every line of \<open>A\<close> relabelled \<open>Speaker 1\<close>, every line of \<open>B\<close>
  \<open>Speaker 2\<close> and every line of \<open>C\<close> \<open>Speaker 3\<close>: the label, a colon, a space
  and the dialogue. The other lines are kept.
\<close>

theorem normalize_three_speakers:
  assumes "speaker_names (split nl (clean_text raw_text)) = [A, B, C]"
  shows "distinct [A, B, C]
       \<and> normalize_text raw_text
           = join [nl] (map (relabel3 A B C) (split nl (clean_text raw_text)))
       \<and> (normalize e st raw_text rid ver dfo aio = (Inr out, st') \<longrightarrow>
            content out = [(''text'',
              PStr (join [nl] (map (relabel3 A B C) (split nl (clean_text raw_text)))))])"
proof -
  let ?ls = "split nl (clean_text raw_text)"
  have d: "distinct [A, B, C]"
    using new_names_distinct[of "[]" "line_names ?ls"] assms
    by (simp only: speaker_names_def[symmetric])
  have "standardize_lines [] 0 ?ls = map (relabel [A, B, C]) ?ls"
    using standardize_lines_start[of ?ls] assms by simp
  also have "\<dots> = map (relabel3 A B C) ?ls"
    by (rule map_cong[OF refl]) (rule relabel3_agrees[OF assms])
  finally have t: "normalize_text raw_text = join [nl] (map (relabel3 A B C) ?ls)"
    by (simp add: normalize_text_def standardize_speakers_def)
  have "normalize e st raw_text rid ver dfo aio = (Inr out, st') \<Longrightarrow>
          content out = [(''text'', PStr (normalize_text raw_text))]"
    by (auto simp: normalize_def dest!: persist_Inr)
  with d t show ?thesis by simp
qed

theorem normalize_three_speakers_witness:
  "speaker_names (split nl (clean_text ex_raw)) = [''Ann'', ''Bob'', ''Cy'']
   \<and> normalize_text ex_raw
       = join [nl] [''Speaker 1: hi'', ''Speaker 2: yo'', [], ''Speaker 1: ok'', ''note'',
                    ''Speaker 3: x'']"
proof -
  have h: "speaker_names (split nl (clean_text ex_raw)) = [''Ann'', ''Bob'', ''Cy'']"
    by code_simp
  have m: "join [nl] (map (relabel3 ''Ann'' ''Bob'' ''Cy'') (split nl (clean_text ex_raw)))
      = join [nl] [''Speaker 1: hi'', ''Speaker 2: yo'', [], ''Speaker 1: ok'', ''note'',
                    ''Speaker 3: x'']"
    by code_simp
  from normalize_three_speakers[OF h] h m show ?thesis by simp
qed


lemma split_by_nonempty: "split_by p s \<noteq> []"
  by (induction s) (auto split: list.splits)

lemma split_by_clean_all: "\<forall>l\<in>set (split_by p s). \<forall>c\<in>set l. \<not> p c"
  by (induction s) (auto split: list.splits)

lemma split_by_clean: "l \<in> set (split_by p s) \<Longrightarrow> c \<in> set l \<Longrightarrow> \<not> p c"
  using split_by_clean_all by blast

lemma split_by_line:
  "\<forall>c\<in>set l. \<not> p c \<Longrightarrow> split_by p l = [l]"
  by (induction l) auto

lemma split_by_append:
  "\<forall>c\<in>set l. \<not> p c \<Longrightarrow> p c \<Longrightarrow> split_by p (l @ c # r) = l # split_by p r"
  by (induction l) auto

lemma split_join:
  "ls \<noteq> [] \<Longrightarrow> \<forall>l\<in>set ls. nl \<notin> set l \<Longrightarrow> split nl (join [nl] ls) = ls"
proof (induction "[nl]" ls rule: join.induct)
  case 1
  then show ?case by simp
next
  case (2 l)
  then show ?case
    using split_by_line[of l "\<lambda>c. c = nl"] by (auto simp: split_def)
next
  case (3 l v va)
  have "split_by (\<lambda>c. c = nl) (l @ nl # join [nl] (v # va)) = l # split_by (\<lambda>c. c = nl) (join [nl] (v # va))"
    using 3(3) by (intro split_by_append) auto
  then show ?case
    using 3 by (simp add: split_def)
qed

lemma digit_not_name: "is_digit c \<Longrightarrow> \<not> is_alpha c \<and> \<not> is_space c \<and> c \<noteq> nl \<and> c \<noteq> CHR '':''"
  by (auto simp: is_digit_def is_alpha_def is_space_def nl_def Let_def)

lemma str_nat_cases:
  obtains d ds where "str_nat k = d # ds" and "is_digit d"
  using str_nat_nonempty[of k] str_nat_digits[of k] by (cases "str_nat k") auto

lemma label_no_match: "match_speaker (''Speaker '' @ str_nat k @ r) = None"
proof -
  let ?P = "\<lambda>x. is_alpha x \<or> is_space x"
  obtain d ds where k: "str_nat k = d # ds" and d: "is_digit d" by (rule str_nat_cases)
  have n: "\<not> ?P d" "d \<noteq> CHR '':''" using digit_not_name[OF d] by simp_all
  have pk: "\<And>x. x \<in> set ''peaker '' \<Longrightarrow> ?P x"
    by (auto simp: is_alpha_def is_space_def)
  have t: "takeWhile ?P (''peaker '' @ d # ds @ r) = ''peaker ''"
    using n(1) by (subst takeWhile_append2[OF pk]) simp_all
  have dr: "dropWhile ?P (''peaker '' @ d # ds @ r) = d # ds @ r"
    using n(1) by (subst dropWhile_append2[OF pk]) simp_all
  have "match_speaker (CHR ''S'' # (''peaker '' @ d # ds @ r)) = None"
    unfolding match_speaker_def list.case Let_def t dr using n(2) by simp
  then show ?thesis by (simp add: k)
qed

lemma match_dialogue_subset: "match_speaker l = Some (nm, d) \<Longrightarrow> set d \<subseteq> set l"
proof -
  assume a: "match_speaker l = Some (nm, d)"
  then obtain c cs where l: "l = c # cs" by (cases l) (auto simp: match_speaker_def)
  have "d = dropWhile is_space (drop 1 (dropWhile (\<lambda>x. is_alpha x \<or> is_space x) cs))"
    using a l by (auto simp: match_speaker_def Let_def split: if_splits)
  then have "set d \<subseteq> set cs"
    by (metis (no_types, lifting) set_dropWhileD set_drop_subset subsetD subsetI)
  then show ?thesis using l by auto
qed

lemma relabel_no_match: "match_speaker (relabel order l) = None"
proof (cases "match_speaker l")
  case None
  then show ?thesis by (simp add: relabel_match)
next
  case (Some nd)
  obtain nm d where nd: "nd = (nm, d)" by (cases nd)
  have "relabel order l = ''Speaker '' @ str_nat (index_of order nm + 1) @ ('': '' @ d)"
    by (simp add: relabel_match Some nd)
  then show ?thesis by (simp only: label_no_match)
qed

lemma relabel_no_nl: "nl \<notin> set l \<Longrightarrow> nl \<notin> set (relabel order l)"
proof (cases "match_speaker l")
  case None
  assume "nl \<notin> set l"
  with None show ?thesis by (simp add: relabel_match)
next
  case (Some nd)
  assume a: "nl \<notin> set l"
  obtain nm d where nd: "nd = (nm, d)" by (cases nd)
  have "nl \<notin> set d" using match_dialogue_subset[of l nm d] Some nd a by auto
  moreover have "nl \<notin> set (str_nat k)" for k
    using str_nat_digits[of k] digit_not_name by (auto simp: list_all_iff)
  ultimately show ?thesis
    using Some nd by (simp add: relabel_match nl_def)
qed

lemma standardize_lines_no_match:
  "\<forall>l\<in>set ls. match_speaker l = None \<Longrightarrow> standardize_lines m n ls = ls"
  by (induction ls) auto

lemma standardize_speakers_idem:
  "standardize_speakers (standardize_speakers t) = standardize_speakers t"
proof -
  let ?ls = "split nl t"
  let ?out = "map (relabel (speaker_names ?ls)) ?ls"
  have o: "standardize_speakers t = join [nl] ?out"
    by (simp add: standardize_speakers_def standardize_lines_start)
  have ne: "?out \<noteq> []" by (simp add: split_def split_by_nonempty)
  have nonl: "\<forall>l\<in>set ?out. nl \<notin> set l"
    using split_by_clean[of _ "\<lambda>c. c = nl" t] by (auto simp: split_def intro!: relabel_no_nl)
  have sp: "split nl (join [nl] ?out) = ?out" using ne nonl by (rule split_join)
  have "standardize_lines [] 0 ?out = ?out"
    by (rule standardize_lines_no_match) (auto simp: relabel_no_match)
  then show ?thesis
    unfolding o by (simp add: standardize_speakers_def sp)
qed


lemma nl_space: "is_space nl"
  by (simp add: is_space_def nl_def)

lemma join_Cons: "ls \<noteq> [] \<Longrightarrow> join sep (l # ls) = l @ sep @ join sep ls"
  by (cases ls) simp_all

lemma split_Cons:
  "split nl (c # cs) =
     (if c = nl then [] # split nl cs
      else (c # hd (split nl cs)) # tl (split nl cs))"
  using split_by_nonempty[of "\<lambda>c. c = nl" cs]
  by (cases "split_by (\<lambda>c. c = nl) cs") (simp_all add: split_def)

lemma join_split: "join [nl] (split nl x) = x"
proof (induction x)
  case Nil
  then show ?case by (simp add: split_def)
next
  case (Cons c x)
  obtain l ls where s: "split nl x = l # ls"
    using split_by_nonempty[of "\<lambda>c. c = nl" x] by (cases "split nl x") (auto simp: split_def)
  show ?case
  proof (cases "c = nl")
    case True
    then show ?thesis using Cons s by (simp add: split_Cons join_Cons)
  next
    case False
    then show ?thesis using Cons s by (cases ls) (simp_all add: split_Cons)
  qed
qed

lemma collapse_other: "c \<noteq> nl \<Longrightarrow> collapse_blank_lines (c # cs) = c # collapse_blank_lines cs"
  by (simp add: Let_def)

lemma collapse_line: "nl \<notin> set l \<Longrightarrow> collapse_blank_lines (l @ y) = l @ collapse_blank_lines y"
  by (induction l) (auto simp: collapse_other simp del: collapse_blank_lines.simps)

lemma collapse_no_nl: "nl \<notin> set l \<Longrightarrow> collapse_blank_lines l = l"
  using collapse_line[of l "[]"] by simp

lemma takeWhile_collapse:
  "nl \<in> set (takeWhile is_space (collapse_blank_lines r)) \<Longrightarrow> nl \<in> set (takeWhile is_space r)"
proof (induction r rule: collapse_blank_lines.induct)
  case 1
  then show ?case by simp
next
  case (2 c cs)
  show ?case
  proof (cases "c = nl")
    case True
    then show ?thesis by (simp add: nl_space)
  next
    case False
    have ih: "nl \<in> set (takeWhile is_space (collapse_blank_lines cs))
                \<Longrightarrow> nl \<in> set (takeWhile is_space cs)"
      using 2(2)[OF refl] False by simp
    show ?thesis
      using 2(3) False ih
      by (cases "is_space c") (simp_all add: collapse_other del: collapse_blank_lines.simps)
  qed
qed


lemma good_lines_first: "good_lines (l # ls) = good_lines (l' # ls)"
proof (cases ls)
  case Nil
  then show ?thesis by simp
next
  case (Cons m ls')
  then show ?thesis by (cases ls') simp_all
qed

lemma first_line_not_blank:
  assumes "nl \<notin> set (takeWhile is_space r)"
    and "split nl (collapse_blank_lines r) = l # n # rest"
  shows "\<not> list_all is_space l"
proof
  assume ws: "list_all is_space l"
  have "collapse_blank_lines r = l @ [nl] @ join [nl] (n # rest)"
    using join_split[of "collapse_blank_lines r"] assms(2) by (simp add: join_Cons)
  then have "takeWhile is_space (collapse_blank_lines r)
               = l @ takeWhile is_space (nl # join [nl] (n # rest))"
    using ws by (simp add: takeWhile_append2 list_all_iff)
  then have "nl \<in> set (takeWhile is_space (collapse_blank_lines r))"
    by (simp add: nl_space)
  then show False using assms(1) takeWhile_collapse by blast
qed

lemma good_lines_blank_before:
  assumes "nl \<notin> set (takeWhile is_space r)"
    and "good_lines (split nl (collapse_blank_lines r))"
  shows "good_lines ([] # split nl (collapse_blank_lines r))"
    and "good_lines ([] # [] # split nl (collapse_blank_lines r))"
proof -
  let ?L = "split nl (collapse_blank_lines r)"
  obtain l ls where L: "?L = l # ls"
    using split_by_nonempty[of "\<lambda>c. c = nl" "collapse_blank_lines r"]
    by (cases ?L) (auto simp: split_def)
  have nb: "ls \<noteq> [] \<Longrightarrow> \<not> list_all is_space l"
    using first_line_not_blank[OF assms(1)] L by (cases ls) auto
  have a: "good_lines ([] # l # ls)"
  proof (cases ls)
    case Nil
    then show ?thesis by simp
  next
    case (Cons n rest)
    then show ?thesis using nb assms(2) L by auto
  qed
  have b: "good_lines ([] # [] # l # ls)"
    using a nb by (cases ls) auto
  show "good_lines ([] # ?L)" using a L by simp
  show "good_lines ([] # [] # ?L)" using b L by simp
qed

lemma takeWhile_drop:
  "k \<le> length (takeWhile P xs) \<Longrightarrow> takeWhile P (drop k xs) = drop k (takeWhile P xs)"
proof (induction xs arbitrary: k)
  case Nil
  then show ?case by simp
next
  case (Cons x xs)
  then show ?case by (cases k) (auto split: if_splits)
qed

lemma after_last_nl:
  "nl \<notin> set (drop (length (dropWhile (\<lambda>x. x \<noteq> nl) (rev w))) w)"
proof -
  let ?t = "takeWhile (\<lambda>x. x \<noteq> nl) (rev w)" and ?d = "dropWhile (\<lambda>x. x \<noteq> nl) (rev w)"
  have "rev (rev w) = rev (?t @ ?d)" by simp
  then have w: "w = rev ?d @ rev ?t" by (simp only: rev_rev_ident rev_append)
  have "drop (length (rev ?d)) (rev ?d @ rev ?t) = rev ?t" by simp
  then have "drop (length ?d) w = rev ?t" using w by simp
  moreover have "nl \<notin> set ?t" using set_takeWhileD[of nl "\<lambda>x. x \<noteq> nl" "rev w"] by blast
  ultimately show ?thesis by simp
qed

lemma last_nl_bound:
  "length (dropWhile (\<lambda>x. x \<noteq> nl) (rev w)) \<le> length w"
  using length_dropWhile_le[of "\<lambda>x. x \<noteq> nl" "rev w"] by simp


lemma good_lines_collapse: "good_lines (split nl (collapse_blank_lines r))"
proof (induction r rule: collapse_blank_lines.induct)
  case 1
  then show ?case by (simp add: split_def)
next
  case (2 c cs)
  define w where "w = takeWhile is_space cs"
  define k where "k = length (dropWhile (\<lambda>x. x \<noteq> nl) (rev w))"
  show ?case
  proof (cases "c = nl \<and> nl \<in> set w")
    case True
    have ih: "good_lines (split nl (collapse_blank_lines (drop k cs)))"
      using 2(1)[OF w_def True] by (simp add: k_def)
    have "takeWhile is_space (drop k cs) = drop k w"
      unfolding w_def by (rule takeWhile_drop) (simp add: k_def w_def[symmetric] last_nl_bound)
    then have "nl \<notin> set (takeWhile is_space (drop k cs))"
      using after_last_nl[of w] by (simp add: k_def)
    then have g: "good_lines ([] # [] # split nl (collapse_blank_lines (drop k cs)))"
      using ih by (rule good_lines_blank_before(2))
    have "collapse_blank_lines (c # cs) = nl # nl # collapse_blank_lines (drop k cs)"
      using True by (simp add: Let_def w_def k_def)
    then show ?thesis using g by (simp add: split_Cons)
  next
    case False
    have ih: "good_lines (split nl (collapse_blank_lines cs))"
      using 2(2)[OF w_def False] .
    have e: "collapse_blank_lines (c # cs) = c # collapse_blank_lines cs"
      using False by (auto simp: Let_def w_def)
    show ?thesis
    proof (cases "c = nl")
      case True
      then have "nl \<notin> set (takeWhile is_space cs)" using False w_def by simp
      then have "good_lines ([] # split nl (collapse_blank_lines cs))"
        using ih by (rule good_lines_blank_before(1))
      then show ?thesis using True e by (simp add: split_Cons)
    next
      case c: False
      obtain l ls where L: "split nl (collapse_blank_lines cs) = l # ls"
        using split_by_nonempty[of "\<lambda>c. c = nl" "collapse_blank_lines cs"]
        by (cases "split nl (collapse_blank_lines cs)") (auto simp: split_def)
      have "good_lines ((c # l) # ls)" using ih L good_lines_first[of "c # l" ls l] by simp
      then show ?thesis using c e L by (simp add: split_Cons)
    qed
  qed
qed

lemma good_lines_map:
  assumes "\<And>l. list_all is_space (f l) = list_all is_space l" and "\<And>l. (f l = []) = (l = [])"
  shows "good_lines (map f ls) = good_lines ls"
  by (induction ls rule: good_lines.induct) (simp_all add: assms)


lemma collapse_nl_keep:
  "nl \<notin> set (takeWhile is_space cs) \<Longrightarrow>
     collapse_blank_lines (nl # cs) = nl # collapse_blank_lines cs"
  by (simp add: Let_def)

lemma collapse_nl_pair:
  assumes "nl \<notin> set (takeWhile is_space cs2)"
  shows "collapse_blank_lines (nl # nl # cs2) = nl # nl # collapse_blank_lines cs2"
proof -
  let ?w' = "takeWhile is_space cs2"
  have w: "takeWhile is_space (nl # cs2) = nl # ?w'" by (simp add: nl_space)
  have "dropWhile (\<lambda>x. x \<noteq> nl) (rev ?w' @ [nl]) = dropWhile (\<lambda>x. x \<noteq> nl) [nl]"
    using assms by (intro dropWhile_append2) auto
  then have k: "length (dropWhile (\<lambda>x. x \<noteq> nl) (rev (nl # ?w'))) = 1" by simp
  show ?thesis
    unfolding collapse_blank_lines.simps(2)[of nl "nl # cs2"] Let_def w k by simp
qed

lemma takeWhile_line:
  "\<not> list_all is_space m \<Longrightarrow> nl \<notin> set m \<Longrightarrow> nl \<notin> set (takeWhile is_space (m @ y))"
proof -
  assume a: "\<not> list_all is_space m" and b: "nl \<notin> set m"
  obtain x where x: "x \<in> set m" "\<not> is_space x" using a by (auto simp: list_all_iff)
  have "takeWhile is_space (m @ y) = takeWhile is_space m"
    using x by (rule takeWhile_append1)
  then show ?thesis using b set_takeWhileD[of nl is_space m] by auto
qed

lemma collapse_good:
  "good_lines (l # L) \<Longrightarrow> \<forall>x\<in>set (l # L). nl \<notin> set x \<Longrightarrow>
     collapse_blank_lines (join [nl] (l # L)) = join [nl] (l # L)"
proof (induction "length L" arbitrary: l L rule: less_induct)
  case less
  show ?case
  proof (cases L)
    case Nil
    then show ?thesis using less.prems(2) by (simp add: collapse_no_nl)
  next
    case (Cons m rest)
    let ?cs = "join [nl] (m # rest)"
    have l: "nl \<notin> set l" and m: "nl \<notin> set m" using less.prems(2) Cons by simp_all
    have j: "join [nl] (l # L) = l @ nl # ?cs" using Cons by simp
    have main: "collapse_blank_lines (nl # ?cs) = nl # ?cs"
    proof (cases rest)
      case Nil
      have "nl \<notin> set (takeWhile is_space m)" using m set_takeWhileD[of nl is_space m] by auto
      then show ?thesis using Nil m by (simp add: collapse_nl_keep collapse_no_nl)
    next
      case r: (Cons n rest')
      have g1: "good_lines (m # n # rest')" using less.prems(1) Cons r by simp
      have nn: "\<forall>x\<in>set (m # n # rest'). nl \<notin> set x" using less.prems(2) Cons r by simp
      show ?thesis
      proof (cases "list_all is_space m")
        case False
        have "nl \<notin> set (takeWhile is_space ?cs)"
          using takeWhile_line[OF False m] r by simp
        moreover have "collapse_blank_lines ?cs = ?cs"
          using less.hyps[of "n # rest'" m] g1 nn Cons r by simp
        ultimately show ?thesis by (simp add: collapse_nl_keep)
      next
        case True
        then have m0: "m = []" using less.prems(1) Cons r by auto
        let ?cs2 = "join [nl] (n # rest')"
        have cs: "?cs = nl # ?cs2" using m0 r by simp
        have g2: "good_lines (n # rest')" using g1 good_lines_first[of n rest'] by (cases rest') auto
        have n2: "\<forall>x\<in>set (n # rest'). nl \<notin> set x" using nn by simp
        have c2: "collapse_blank_lines ?cs2 = ?cs2"
          using less.hyps[of rest' n] g2 n2 Cons r by simp
        have "nl \<notin> set (takeWhile is_space ?cs2)"
        proof (cases rest')
          case Nil
          then show ?thesis using n2 set_takeWhileD[of nl is_space n] by auto
        next
          case (Cons p rest'')
          have "n \<noteq> []" using less.prems(1) \<open>L = m # rest\<close> r m0 Cons by auto
          moreover have "\<not> (list_all is_space n \<and> n \<noteq> [])" using g1 Cons by simp
          ultimately have "\<not> list_all is_space n" by simp
          then show ?thesis using takeWhile_line[of n] n2 Cons by simp
        qed
        then have "collapse_blank_lines (nl # nl # ?cs2) = nl # nl # collapse_blank_lines ?cs2"
          by (rule collapse_nl_pair)
        then show ?thesis unfolding cs c2 .
      qed
    qed
    show ?thesis unfolding j using collapse_line[OF l, of "nl # ?cs"] main by simp
  qed
qed


lemma alpha_not_space: "is_alpha c \<Longrightarrow> \<not> is_space c"
  by (auto simp: is_alpha_def is_space_def Let_def)

lemma match_starts_alpha: "match_speaker l = Some nd \<Longrightarrow> l \<noteq> [] \<and> is_alpha (hd l)"
  by (cases l) (auto simp: match_speaker_def Let_def split: if_splits)

lemma relabel_shape:
  "relabel order l = l
   \<or> (l \<noteq> [] \<and> \<not> is_space (hd l) \<and> relabel order l \<noteq> [] \<and> \<not> is_space (hd (relabel order l)))"
proof (cases "match_speaker l")
  case None
  then show ?thesis by (simp add: relabel_match)
next
  case (Some nd)
  obtain nm d where nd: "nd = (nm, d)" by (cases nd)
  have "l \<noteq> [] \<and> \<not> is_space (hd l)"
    using match_starts_alpha[OF Some] alpha_not_space by blast
  moreover have "relabel order l \<noteq> [] \<and> \<not> is_space (hd (relabel order l))"
    using Some nd by (simp add: relabel_match is_space_def)
  ultimately show ?thesis by blast
qed

lemma relabel_blank: "list_all is_space (relabel order l) = list_all is_space l"
  using relabel_shape[of order l]
  by (cases l; cases "relabel order l") auto

lemma relabel_empty: "(relabel order l = []) = (l = [])"
  using relabel_shape[of order l] by auto

lemma strip_fix:
  assumes "s = [] \<or> (\<not> is_space (hd s) \<and> \<not> is_space (last s))"
  shows "strip s = s"
proof (cases s)
  case Nil
  then show ?thesis by (simp add: strip_def strip_by_def)
next
  case (Cons a s')
  then have h: "\<not> is_space (hd s)" and l: "\<not> is_space (last s)" using assms by auto
  have 1: "dropWhile is_space s = s" using h Cons by simp
  have "butlast s @ [last s] = s" using Cons by simp
  then have r: "rev s = last s # rev (butlast s)" by (metis rev.simps(2) rev_rev_ident rev_swap)
  have 2: "dropWhile is_space (rev s) = rev s" unfolding r using l by simp
  show ?thesis by (simp add: strip_def strip_by_def 1 2)
qed

lemma strip_head: "strip s = [] \<or> \<not> is_space (hd (strip s))"
proof (cases "dropWhile is_space s")
  case Nil
  then show ?thesis by (simp only: strip_def strip_by_def Nil) simp
next
  case (Cons a d)
  have a: "\<not> is_space a" using Cons hd_dropWhile[of is_space s] by auto
  have "dropWhile is_space (rev d @ [a]) = dropWhile is_space (rev d) @ [a]"
    using a by (simp add: dropWhile_append3)
  then have "strip s = a # rev (dropWhile is_space (rev d))"
    by (simp add: strip_def strip_by_def Cons)
  then show ?thesis using a by simp
qed

lemma clean_head: "clean_text t = [] \<or> \<not> is_space (hd (clean_text t))"
proof (cases "strip t")
  case Nil
  then show ?thesis by (simp add: clean_text_def)
next
  case (Cons a s)
  then have a: "\<not> is_space a" using strip_head[of t] by simp
  then have "a \<noteq> nl" using nl_space by auto
  then show ?thesis using a Cons by (simp add: clean_text_def collapse_other del: collapse_blank_lines.simps)
qed


lemma join_head: "x \<noteq> [] \<Longrightarrow> join sep (x # ls) \<noteq> [] \<and> hd (join sep (x # ls)) = hd x"
  by (cases ls) simp_all

lemma standardize_head:
  assumes "c = [] \<or> \<not> is_space (hd c)"
  shows "standardize_speakers c = [] \<or> \<not> is_space (hd (standardize_speakers c))"
proof (cases c)
  case Nil
  have r: "relabel (speaker_names [[]]) [] = []" by (simp add: relabel_empty)
  have s0: "split nl [] = [[]]" by (simp add: split_def)
  have "standardize_speakers [] = join [nl] (map (relabel (speaker_names [[]])) [[]])"
    unfolding standardize_speakers_def standardize_lines_start s0 ..
  then have "standardize_speakers [] = []" using r by simp
  then show ?thesis using Nil by simp
next
  case (Cons a cs)
  then have a: "\<not> is_space a" using assms by simp
  then have "a \<noteq> nl" using nl_space by auto
  then obtain l' ls where L: "split nl c = (a # l') # ls"
    using Cons by (simp add: split_Cons)
  let ?f = "relabel (speaker_names (split nl c))"
  have "?f (a # l') \<noteq> [] \<and> \<not> is_space (hd (?f (a # l')))"
    using relabel_shape[of "speaker_names (split nl c)" "a # l'"] a by auto
  then have "join [nl] (?f (a # l') # map ?f ls) \<noteq> []
             \<and> \<not> is_space (hd (join [nl] (?f (a # l') # map ?f ls)))"
    using join_head[of "?f (a # l')" "[nl]" "map ?f ls"] by simp
  moreover have "standardize_speakers c = join [nl] (?f (a # l') # map ?f ls)"
    unfolding standardize_speakers_def standardize_lines_start L by simp
  ultimately show ?thesis by simp
qed

lemma clean_normalized:
  assumes "normalize_text t = [] \<or> \<not> is_space (last (normalize_text t))"
  shows "clean_text (normalize_text t) = normalize_text t"
proof -
  let ?c = "clean_text t"
  let ?L = "split nl ?c"
  let ?f = "relabel (speaker_names ?L)"
  let ?u = "normalize_text t"
  have u: "?u = join [nl] (map ?f ?L)"
    unfolding normalize_text_def standardize_speakers_def standardize_lines_start ..
  have "?u = [] \<or> \<not> is_space (hd ?u)"
    unfolding normalize_text_def by (rule standardize_head) (rule clean_head)
  then have st: "strip ?u = ?u" using assms by (intro strip_fix) auto
  obtain l ls where L: "?L = l # ls"
    using split_by_nonempty[of "\<lambda>c. c = nl" ?c] by (cases ?L) (auto simp: split_def)
  have "good_lines ?L"
    unfolding clean_text_def by (rule good_lines_collapse)
  then have g: "good_lines (map ?f ?L)"
    by (simp add: good_lines_map[of ?f, OF relabel_blank relabel_empty])
  have n: "\<forall>x\<in>set (map ?f ?L). nl \<notin> set x"
    using split_by_clean[of _ "\<lambda>c. c = nl" ?c] by (auto simp: split_def intro!: relabel_no_nl)
  have "collapse_blank_lines (join [nl] (?f l # map ?f ls)) = join [nl] (?f l # map ?f ls)"
    using g n L by (intro collapse_good) simp_all
  then have "collapse_blank_lines ?u = ?u" using u L by simp
  then show ?thesis by (simp add: clean_text_def[of ?u] st)
qed

text \<open>
  Claim C10, as stated, fails. Normalizing \<open>Alice:\<close> gives \<open>Speaker 1: \<close> with a
  space at the end, and normalizing that text strips the space; replaying normalize on
  the stored transcript gives a version 2 with a different text.
\<close>

theorem normalize_not_idempotent:
  "normalize_text ''Alice:'' = ''Speaker 1: ''
   \<and> normalize_text (normalize_text ''Alice:'') = ''Speaker 1:''
   \<and> map_of (artifacts ex_alice_state) ''transcript_20240102_r1_v1''
       = Some (file_of \<lparr>artifact_id = ''transcript_20240102_r1_v1'', atype = ''transcript'',
           content = [(''text'', PStr ''Speaker 1: '')], derived_from = [],
           referenced_context = [], confidence = fl (95 / 100),
           stage_metadata = metadata ex_env ''deterministic'' [], status = ''draft'',
           version = 1, created_at = now ex_env\<rparr>)
   \<and> (case fst (replay ex_env ex_alice_state ''transcript_20240102_r1_v1'' Normalize) of
         Inr (ReplayComplete out) \<Rightarrow>
           version out = 2 \<and> content out = [(''text'', PStr ''Speaker 1:'')]
       | _ \<Rightarrow> False)"
  unfolding ex_alice_state_def by code_simp

text \<open>
  Claim C10, amended. The standardization of the speaker labels is idempotent. The
  normalize transformation returns a text it has produced unchanged whenever that text
  does not end in a whitespace character, and then replaying normalize on a transcript
  artifact with that text yields a new version with the same content.
\<close>

theorem normalize_idempotent_without_trailing_space:
  assumes "normalize_text raw_text = [] \<or> \<not> is_space (last (normalize_text raw_text))"
  shows "standardize_speakers (standardize_speakers t) = standardize_speakers t
       \<and> normalize_text (normalize_text raw_text) = normalize_text raw_text
       \<and> (load_artifact (now e) (artifacts st) i = Inr a
            \<and> content a = [(''text'', PStr (normalize_text raw_text))]
            \<and> replay e st i Normalize = (Inr (ReplayComplete out), st')
          \<longrightarrow> content out = content a)"
proof -
  have cl: "clean_text (normalize_text raw_text) = normalize_text raw_text"
    using assms by (rule clean_normalized)
  have idem: "normalize_text (normalize_text raw_text) = normalize_text raw_text"
    using cl standardize_speakers_idem[of "clean_text raw_text"]
    by (simp add: normalize_text_def)
  have "content out = content a"
    if ld: "load_artifact (now e) (artifacts st) i = Inr a"
      and c: "content a = [(''text'', PStr (normalize_text raw_text))]"
      and r: "replay e st i Normalize = (Inr (ReplayComplete out), st')"
  proof -
    have "normalize e st (normalize_text raw_text) (run_id_of i) (version a + 1)
            (Some [artifact_id a])
            (Some (strip_version (artifact_id a) @ ''_v'' @ str_int (version a + 1)))
          = (Inr out, st')"
      using r ld c
      by (auto simp: replay_def Let_def run_stage_def get_text_def split: prod.splits sum.splits)
    then have "content out = [(''text'', PStr (normalize_text (normalize_text raw_text)))]"
      by (auto simp: normalize_def dest!: persist_Inr)
    then show ?thesis using idem c by simp
  qed
  with idem standardize_speakers_idem[of t] show ?thesis by blast
qed

theorem normalize_idempotent_without_trailing_space_witness:
  "(normalize_text ex_raw = [] \<or> \<not> is_space (last (normalize_text ex_raw)))
   \<and> normalize_text (normalize_text ex_raw) = normalize_text ex_raw"
proof -
  have h: "normalize_text ex_raw = [] \<or> \<not> is_space (last (normalize_text ex_raw))"
    by code_simp
  from normalize_idempotent_without_trailing_space[OF h] h show ?thesis by blast
qed

end
